theory Spec2Isabelle
  imports Complex_Main "HOL-Library.AList" "HOL-Library.Sublist"
begin

section \<open>Numbers\<close>

text \<open>
  A JavaScript number is a binary64 value, modelled as the real it denotes.
  \<open>round64\<close> rounds a real to the nearest binary64 value, ties to the even
  significand: \<open>ulp_exponent x\<close> is the exponent of the last place of the binade of
  \<open>x\<close> (53 significant bits, the subnormal numbers from \<open>2 powr - 1022\<close> down).
  Values beyond the finite range, where JavaScript has \<^verbatim>\<open>Infinity\<close>, are not
  represented.
\<close>

definition round_even :: "real \<Rightarrow> int" where
  "round_even r =
     (let n = \<lfloor>r\<rfloor>; d = r - of_int n
      in if d < 1 / 2 then n else if 1 / 2 < d then n + 1 else if even n then n else n + 1)"

definition ulp_exponent :: "real \<Rightarrow> int" where
  "ulp_exponent x = max (\<lfloor>log 2 \<bar>x\<bar>\<rfloor> - 52) (- 1074)"

definition round64 :: "real \<Rightarrow> real" where
  "round64 x =
     (if x = 0 then 0
      else of_int (round_even (x / 2 powr of_int (ulp_exponent x))) *
           2 powr of_int (ulp_exponent x))"

text \<open>
  The operators \<^verbatim>\<open>+\<close>, \<^verbatim>\<open>-\<close>, \<^verbatim>\<open>*\<close> on numbers round the exact result.
  \<^verbatim>\<open>Math.sqrt\<close>, \<^verbatim>\<open>Math.pow\<close> with a natural exponent and \<^verbatim>\<open>Math.atan2\<close>
  are taken correctly rounded, as IEEE 754 arithmetic gives the square root and the
  square. The neural network and the frame loop, where the source tests a computed
  number, round every operation as the source does; a number that only goes into a style
  value of a shape, a particle or a ripple is kept as the exact result of its expression.
\<close>

definition fadd :: "real \<Rightarrow> real \<Rightarrow> real" where
  "fadd a b = round64 (a + b)"

definition fsub :: "real \<Rightarrow> real \<Rightarrow> real" where
  "fsub a b = round64 (a - b)"

definition fmul :: "real \<Rightarrow> real \<Rightarrow> real" where
  "fmul a b = round64 (a * b)"

definition Math_pow :: "real \<Rightarrow> nat \<Rightarrow> real" where
  "Math_pow x n = round64 (x ^ n)"

definition Math_sqrt :: "real \<Rightarrow> real" where
  "Math_sqrt x = round64 (sqrt x)"

section \<open>Values of the host: strings, elements, inline styles\<close>

text \<open>
  A string that the source builds by concatenating literals and numbers
  (\<^verbatim>\<open>x + '%'\<close>, a template literal) is the list of its pieces, in order; the
  conversion of a number to decimal text is left to the host. The empty string is the
  empty list.
\<close>

datatype piece = Lit string | Num real

type_synonym jsstring = "piece list"

text \<open>
  A DOM element: its identity, tag (the local name), class list, inline style
  declarations and children. Two elements are the same object exactly when they have the
  same identity.
\<close>

datatype element =
  Element (eid: nat) (tagName: string) (classList: "string list")
    (style: "(string \<times> jsstring) list") (childNodes: "element list")

definition contains :: "string \<Rightarrow> element \<Rightarrow> bool" where
  "contains c e = (c \<in> set (classList e))"

definition classList_add :: "string \<Rightarrow> element \<Rightarrow> element" where
  "classList_add c e =
     (case e of Element i t cl st ch \<Rightarrow>
        if c \<in> set cl then e else Element i t (cl @ [c]) st ch)"

text \<open>
  Assigning a property of \<^verbatim>\<open>element.style\<close>: the empty string removes the declaration,
  any other value sets it.
\<close>

definition set_style :: "string \<Rightarrow> jsstring \<Rightarrow> element \<Rightarrow> element" where
  "set_style p v e =
     (case e of Element i t cl st ch \<Rightarrow>
        Element i t cl (if v = [] then AList.delete p st else AList.update p v st) ch)"

definition get_style :: "string \<Rightarrow> element \<Rightarrow> jsstring" where
  "get_style p e = (case map_of (style e) p of None \<Rightarrow> [] | Some v \<Rightarrow> v)"

text \<open>\<^verbatim>\<open>String.prototype.replace\<close> with a string pattern: the first occurrence only.\<close>

fun replace :: "string \<Rightarrow> string \<Rightarrow> string \<Rightarrow> string" where
  "replace pat rep [] = (if pat = [] then rep else [])"
| "replace pat rep (c # cs) =
     (if prefix pat (c # cs) then rep @ drop (length pat) (c # cs)
      else c # replace pat rep cs)"

section \<open>Card hover (onCardMouseMove, onCardMouseLeave)\<close>

definition cardType :: "element \<Rightarrow> string" where
  "cardType c =
     (if contains ''student-portal'' c then ''cyan''
      else if contains ''examiner-portal'' c then ''blue'' else ''amber'')"

definition shadowColor :: "string \<Rightarrow> string" where
  "shadowColor ct =
     (let c0 = ''rgba(6, 182, 212, 0.25)'';
          c1 = (if ct = ''blue'' then ''rgba(59, 130, 246, 0.25)'' else c0);
          c2 = (if ct = ''amber'' then ''rgba(245, 158, 11, 0.25)'' else c1)
      in c2)"

definition boxShadow :: "string \<Rightarrow> string" where
  "boxShadow sc = ''0 8px 25px '' @ sc @ '', 0 0 20px '' @ replace ''0.25'' ''0.1'' sc"

text \<open>The argument is \<^verbatim>\<open>event.currentTarget\<close>; the result is the card after the handler.\<close>

definition onCardMouseMove :: "element \<Rightarrow> element" where
  "onCardMouseMove c =
     (let sc = shadowColor (cardType c) in
      set_style ''transition'' [Lit ''all 0.3s cubic-bezier(0.25, 0.8, 0.25, 1)'']
        (set_style ''boxShadow'' [Lit (boxShadow sc)]
          (set_style ''transform'' [Lit ''translateY(-4px)''] c)))"

definition onCardMouseLeave :: "element \<Rightarrow> element" where
  "onCardMouseLeave c = set_style ''transform'' [] c"

section \<open>Selectors and queries on the element tree\<close>

text \<open>
  The selectors the source uses are groups of class selectors and one tag selector
  (\<^verbatim>\<open>'.hero-cta, .grid'\<close>, \<^verbatim>\<open>'svg'\<close>): a group is the list of its members.
\<close>

datatype selector = ByClass string | ByTag string

fun matches1 :: "selector \<Rightarrow> element \<Rightarrow> bool" where
  "matches1 (ByClass c) e = contains c e"
| "matches1 (ByTag t) e = (tagName e = t)"

definition matches :: "selector list \<Rightarrow> element \<Rightarrow> bool" where
  "matches sels e = list_ex (\<lambda>sel. matches1 sel e) sels"

text \<open>The descendants of an element, and the elements of a forest, in document order.\<close>

fun descendants :: "element \<Rightarrow> element list"
  and elements_of :: "element list \<Rightarrow> element list" where
  "descendants (Element i t cl st ch) = elements_of ch"
| "elements_of [] = []"
| "elements_of (c # cs) = c # descendants c @ elements_of cs"

definition querySelectorAll :: "selector list \<Rightarrow> element \<Rightarrow> element list" where
  "querySelectorAll sels e = filter (matches sels) (descendants e)"

definition querySelector :: "selector list \<Rightarrow> element \<Rightarrow> element option" where
  "querySelector sels e = (case querySelectorAll sels e of [] \<Rightarrow> None | x # _ \<Rightarrow> Some x)"

text \<open>
  The path from a root of the forest down to the element with a given identity (empty
  when the forest does not hold it); \<^verbatim>\<open>Element.closest\<close> is the nearest element of
  that path, the element itself included, that matches.
\<close>

fun path_to :: "nat \<Rightarrow> element \<Rightarrow> element list"
  and path_in :: "nat \<Rightarrow> element list \<Rightarrow> element list" where
  "path_to i (Element j t cl st ch) =
     (if i = j then [Element j t cl st ch]
      else (case path_in i ch of [] \<Rightarrow> [] | p # ps \<Rightarrow> Element j t cl st ch # p # ps))"
| "path_in i [] = []"
| "path_in i (c # cs) = (case path_to i c of [] \<Rightarrow> path_in i cs | p # ps \<Rightarrow> p # ps)"

definition closest :: "selector list \<Rightarrow> nat \<Rightarrow> element list \<Rightarrow> element option" where
  "closest sels i roots = find (matches sels) (rev (path_in i roots))"

text \<open>
  Mutation of the element with a given identity, where it stands in the tree:
  \<open>update_element i f\<close> applies \<open>f\<close> to it, \<open>remove_element i\<close> detaches it
  (\<^verbatim>\<open>Element.remove\<close>).
\<close>

fun update_element :: "nat \<Rightarrow> (element \<Rightarrow> element) \<Rightarrow> element \<Rightarrow> element" where
  "update_element i f (Element j t cl st ch) =
     (if i = j then f (Element j t cl st ch)
      else Element j t cl st (map (update_element i f) ch))"

fun remove_element :: "nat \<Rightarrow> element \<Rightarrow> element" where
  "remove_element i (Element j t cl st ch) =
     Element j t cl st (map (remove_element i) (filter (\<lambda>c. eid c \<noteq> i) ch))"

definition remove_from :: "nat \<Rightarrow> element list \<Rightarrow> element list" where
  "remove_from i roots = map (remove_element i) (filter (\<lambda>c. eid c \<noteq> i) roots)"

definition appendChild :: "element \<Rightarrow> element \<Rightarrow> element" where
  "appendChild child parent =
     (case parent of Element i t cl st ch \<Rightarrow> Element i t cl st (ch @ [child]))"

definition set_className :: "string \<Rightarrow> element \<Rightarrow> element" where
  "set_className c e = (case e of Element i t cl st ch \<Rightarrow> Element i t [c] st ch)"

definition clear_children :: "element \<Rightarrow> element" where
  "clear_children e = (case e of Element i t cl st ch \<Rightarrow> Element i t cl st [])"

section \<open>The state of the page and of the controller\<close>

record dom_rect =
  rect_left :: real
  rect_top :: real
  rect_width :: real
  rect_height :: real

text \<open>An entry of \<^verbatim>\<open>this.neuralNodes\<close>: \<^verbatim>\<open>{ element: node, x, y }\<close>.\<close>

record neural_node =
  node_element :: nat
  node_x :: real
  node_y :: real

text \<open>The closures the source hands to \<^verbatim>\<open>setTimeout\<close>.\<close>

datatype callback =
    AddInView nat
  | RemoveRipple nat
  | CallHandleResize

record timer =
  timer_id :: nat
  due :: nat
  action :: callback

text \<open>
  The text of a style element, parsed: a rule is its selectors and its declarations
  (property, value, and whether it is \<^verbatim>\<open>!important\<close>); a keyframes rule is its name
  and, for each keyframe selector, the declarations.
\<close>

datatype css_value = Milliseconds real | Number real | Text string

datatype css_rule =
    Rule "string list" "(string \<times> css_value \<times> bool) list"
  | Keyframes string "(string \<times> (string \<times> css_value) list) list"

text \<open>
  The state: the host's side (the elements of the document, style sheets appended to the
  head, the window, the sources of random numbers and of layout, the clock with the
  timers and the requested animation frames, the observed elements and the elements that
  carry pointer listeners) and the fields of the \<^verbatim>\<open>FuturisticAnimations\<close> object.
  \<open>page\<close> is the document without the overlay: its root, the html element, with the
  head and the body. The overlay is kept in \<open>bgContainer\<close>, and \<open>bgAttached\<close> says
  that it is the first child of the body. \<open>frames_run\<close> is a ghost counter of the runs
  of the frame callback.
\<close>

record state =
  page :: "element list"
  head_styles :: "css_rule list list"
  next_eid :: nat
  innerWidth :: int
  prefers_reduced_motion :: bool
  randoms :: "nat \<Rightarrow> real"
  randoms_used :: nat
  layout :: "nat \<Rightarrow> dom_rect"
  clock :: nat
  timers :: "timer list"
  next_timer :: nat
  frame_requests :: "nat list"
  frame_counter :: nat
  observed :: "nat list"
  button_listeners :: "nat list"
  card_listeners :: "nat list"
  resizeTimeout :: "nat option"
  particles :: "nat list"
  neuralNodes :: "neural_node list"
  isReducedMotion :: bool
  animationFrameId :: "nat option"
  lastTime :: real
  bgContainer :: "element option"
  bgAttached :: bool
  frames_run :: nat

section \<open>Host functions\<close>

definition random :: "state \<Rightarrow> real \<times> state" where
  "random s = (randoms s (randoms_used s), s\<lparr>randoms_used := randoms_used s + 1\<rparr>)"

definition createElement :: "string \<Rightarrow> state \<Rightarrow> element \<times> state" where
  "createElement t s = (Element (next_eid s) t [] [] [], s\<lparr>next_eid := next_eid s + 1\<rparr>)"

definition setTimeout :: "callback \<Rightarrow> nat \<Rightarrow> state \<Rightarrow> nat \<times> state" where
  "setTimeout cb delay s =
     (next_timer s,
      s\<lparr>timers := timers s @ [\<lparr>timer_id = next_timer s, due = clock s + delay, action = cb\<rparr>],
        next_timer := next_timer s + 1\<rparr>)"

definition clearTimeout :: "nat option \<Rightarrow> state \<Rightarrow> state" where
  "clearTimeout h s =
     (case h of None \<Rightarrow> s
      | Some i \<Rightarrow> s\<lparr>timers := filter (\<lambda>tm. timer_id tm \<noteq> i) (timers s)\<rparr>)"

text \<open>Handles of animation frame requests are positive: the counter is incremented first.\<close>

definition requestAnimationFrame :: "state \<Rightarrow> nat \<times> state" where
  "requestAnimationFrame s =
     (let h = frame_counter s + 1
      in (h, s\<lparr>frame_counter := h, frame_requests := frame_requests s @ [h]\<rparr>))"

definition cancelAnimationFrame :: "nat \<Rightarrow> state \<Rightarrow> state" where
  "cancelAnimationFrame h s = s\<lparr>frame_requests := removeAll h (frame_requests s)\<rparr>"

text \<open>
  \<^verbatim>\<open>document.body\<close>: the first child of the root that is a body or a frameset, when
  the root is an html element.
\<close>

definition is_body :: "element \<Rightarrow> bool" where
  "is_body e = (tagName e = ''body'' \<or> tagName e = ''frameset'')"

definition document_body :: "state \<Rightarrow> element option" where
  "document_body s =
     (case page s of
        [] \<Rightarrow> None
      | h # _ \<Rightarrow> if tagName h = ''html'' then find is_body (childNodes h) else None)"

text \<open>
  The elements of the document: the page, with the overlay as the first child of the
  body while it is attached. \<^verbatim>\<open>document.querySelectorAll\<close> selects among all of them.
\<close>

definition insertFirst :: "element \<Rightarrow> element \<Rightarrow> element" where
  "insertFirst child parent =
     (case parent of Element i t cl st ch \<Rightarrow> Element i t cl st (child # ch))"

fun into_body :: "element \<Rightarrow> element list \<Rightarrow> element list" where
  "into_body bg [] = []"
| "into_body bg (c # cs) = (if is_body c then insertFirst bg c # cs else c # into_body bg cs)"

definition with_overlay :: "element \<Rightarrow> element list \<Rightarrow> element list" where
  "with_overlay bg roots =
     (case roots of
        [] \<Rightarrow> []
      | h # rest \<Rightarrow>
          (if tagName h = ''html''
           then (case h of Element i t cl st ch \<Rightarrow> Element i t cl st (into_body bg ch))
           else h) # rest)"

definition document :: "state \<Rightarrow> element list" where
  "document s =
     (case bgContainer s of
        Some bg \<Rightarrow> if bgAttached s then with_overlay bg (page s) else page s
      | None \<Rightarrow> page s)"

definition document_querySelectorAll :: "selector list \<Rightarrow> state \<Rightarrow> element list" where
  "document_querySelectorAll sels s = filter (matches sels) (elements_of (document s))"

text \<open>Mutation of an element of the overlay, and of an element of the page.\<close>

definition update_overlay :: "nat \<Rightarrow> (element \<Rightarrow> element) \<Rightarrow> state \<Rightarrow> state" where
  "update_overlay i f s = s\<lparr>bgContainer := map_option (update_element i f) (bgContainer s)\<rparr>"

definition update_page :: "nat \<Rightarrow> (element \<Rightarrow> element) \<Rightarrow> state \<Rightarrow> state" where
  "update_page i f s = s\<lparr>page := map (update_element i f) (page s)\<rparr>"

section \<open>The overlay: background, floating shapes, particles\<close>

definition shapeCount :: "state \<Rightarrow> nat" where
  "shapeCount s = (if innerWidth s < 768 then 8 else 15)"

definition particleCount :: "state \<Rightarrow> nat" where
  "particleCount s = (if innerWidth s < 768 then 20 else 40)"

definition nodeCount :: "state \<Rightarrow> nat" where
  "nodeCount s = (if innerWidth s < 768 then 12 else 20)"

text \<open>The body of the loop of \<^verbatim>\<open>createFloatingShapes\<close>, for the container found.\<close>

definition addShape :: "nat \<Rightarrow> state \<Rightarrow> state" where
  "addShape shapesContainer s =
     (let (shape, s1) = createElement ''div'' s;
          shape = set_className ''hex-shape'' shape;
          (r1, s2) = random s1;
          shape = set_style ''left'' [Num (r1 * 100), Lit ''%''] shape;
          (r2, s3) = random s2;
          shape = set_style ''top'' [Num (r2 * 100), Lit ''%''] shape;
          (r3, s4) = random s3;
          shape = set_style ''animationDelay'' [Num (r3 * 8), Lit ''s''] shape;
          (r4, s5) = random s4;
          shape = set_style ''animationDuration'' [Num (8 + r4 * 4), Lit ''s''] shape
      in update_overlay shapesContainer (appendChild shape) s5)"

text \<open>
  A result \<open>None\<close> is the TypeError of a method call on \<^verbatim>\<open>undefined\<close> or
  \<^verbatim>\<open>null\<close>: \<^verbatim>\<open>this.bgContainer\<close> not set, or a sublayer not found.
\<close>

definition createFloatingShapes :: "state \<Rightarrow> state option" where
  "createFloatingShapes s =
     (case bgContainer s of
        None \<Rightarrow> None
      | Some bg \<Rightarrow>
          (case querySelector [ByClass ''floating-shapes''] bg of
             None \<Rightarrow> None
           | Some shapesContainer \<Rightarrow>
               Some (fold (\<lambda>i. addShape (eid shapesContainer)) [0..<shapeCount s] s)))"

text \<open>
  \<^verbatim>\<open>createFuturisticBackground\<close>: the container and the three sublayers of its
  \<^verbatim>\<open>innerHTML\<close>, inserted before the first child of the body (a TypeError when the
  document has no body).
\<close>

definition createFuturisticBackground :: "state \<Rightarrow> state option" where
  "createFuturisticBackground s =
     (case document_body s of
        None \<Rightarrow> None
      | Some body \<Rightarrow>
          (let b = next_eid s;
               bg = Element b ''div'' [''futuristic-bg''] []
                      [Element (b + 1) ''div'' [''digital-grid''] [] [],
                       Element (b + 2) ''div'' [''neural-network''] [] [],
                       Element (b + 3) ''div'' [''floating-shapes''] [] []]
           in createFloatingShapes
                (s\<lparr>next_eid := b + 4, bgContainer := Some bg, bgAttached := True\<rparr>)))"

text \<open>
  \<^verbatim>\<open>createParticle\<close>. The \<^verbatim>\<open>animationend\<close> listener of the particle is
  \<open>onParticleAnimationEnd\<close> below, with the particle's identity.
\<close>

definition createParticle :: "state \<Rightarrow> state option" where
  "createParticle s =
     (let (particle, s1) = createElement ''div'' s;
          particle = set_className ''particle'' particle;
          (r1, s2) = random s1;
          particle = set_style ''left'' [Num (r1 * 100), Lit ''vw''] particle;
          (r2, s3) = random s2;
          particle = set_style ''animationDelay'' [Num (r2 * 15), Lit ''s''] particle;
          (r3, s4) = random s3;
          particle = set_style ''animationDuration'' [Num (15 + r3 * 10), Lit ''s''] particle
      in case bgContainer s4 of
           None \<Rightarrow> None
         | Some bg \<Rightarrow> Some (s4\<lparr>bgContainer := Some (appendChild particle bg)\<rparr>))"

fun repeat :: "nat \<Rightarrow> (state \<Rightarrow> state option) \<Rightarrow> state \<Rightarrow> state option" where
  "repeat 0 f s = Some s"
| "repeat (Suc n) f s = (case f s of None \<Rightarrow> None | Some s' \<Rightarrow> repeat n f s')"

definition initParticleSystem :: "state \<Rightarrow> state option" where
  "initParticleSystem s = repeat (particleCount s) createParticle s"

definition onParticleAnimationEnd :: "nat \<Rightarrow> state \<Rightarrow> state option" where
  "onParticleAnimationEnd particle s =
     createParticle (s\<lparr>bgContainer := map_option (remove_element particle) (bgContainer s)\<rparr>)"

section \<open>The neural network\<close>

text \<open>
  The angle of the point \<open>(x, y)\<close>, in \<open>(-pi, pi]\<close>, and \<^verbatim>\<open>Math.atan2\<close>, which
  rounds it.
\<close>

definition atan2 :: "real \<Rightarrow> real \<Rightarrow> real" where
  "atan2 y x =
     (if 0 < x then arctan (y / x)
      else if x < 0 then (if 0 \<le> y then arctan (y / x) + pi else arctan (y / x) - pi)
      else if 0 < y then pi / 2
      else if y < 0 then - pi / 2
      else 0)"

definition Math_atan2 :: "real \<Rightarrow> real \<Rightarrow> real" where
  "Math_atan2 y x = round64 (atan2 y x)"

text \<open>The distance of two nodes as the source computes it, each step rounded.\<close>

definition distance :: "neural_node \<Rightarrow> neural_node \<Rightarrow> real" where
  "distance node otherNode =
     Math_sqrt
       (fadd (Math_pow (fsub (node_x node) (node_x otherNode)) 2)
             (Math_pow (fsub (node_y node) (node_y otherNode)) 2))"

text \<open>The body of the inner loop of \<^verbatim>\<open>createNeuralConnections\<close>.\<close>

definition connect :: "nat \<Rightarrow> neural_node \<Rightarrow> neural_node \<Rightarrow> state \<Rightarrow> state" where
  "connect container node otherNode s =
     (if distance node otherNode < 30 then
        (let (connection, s1) = createElement ''div'' s;
             connection = set_className ''neural-connection'' connection;
             angle = Math_atan2 (fsub (node_y otherNode) (node_y node))
                       (fsub (node_x otherNode) (node_x node));
             len = [Num (distance node otherNode), Lit ''%''];
             connection = set_style ''left'' [Num (node_x node), Lit ''%''] connection;
             connection = set_style ''top'' [Num (node_y node), Lit ''%''] connection;
             connection = set_style ''width'' len connection;
             connection =
               set_style ''transform'' [Lit ''rotate('', Num angle, Lit ''rad)''] connection;
             (r, s2) = random s1;
             connection = set_style ''animationDelay'' [Num (fmul r 4), Lit ''s''] connection
         in update_overlay container (appendChild connection) s2)
      else s)"

definition createNeuralConnections :: "nat \<Rightarrow> state \<Rightarrow> state" where
  "createNeuralConnections container s =
     fold (\<lambda>(index, node) s'.
             fold (connect container node) (drop (index + 1) (neuralNodes s')) s')
          (enumerate 0 (neuralNodes s)) s"

text \<open>The body of the first loop of \<^verbatim>\<open>createNeuralNetwork\<close>.\<close>

definition addNode :: "nat \<Rightarrow> state \<Rightarrow> state" where
  "addNode networkContainer s =
     (let (node, s1) = createElement ''div'' s;
          node = set_className ''neural-node'' node;
          (r1, s2) = random s1;
          x = fmul r1 100;
          (r2, s3) = random s2;
          y = fmul r2 100;
          node = set_style ''left'' [Num x, Lit ''%''] node;
          node = set_style ''top'' [Num y, Lit ''%''] node;
          (r3, s4) = random s3;
          node = set_style ''animationDelay'' [Num (fmul r3 3), Lit ''s''] node;
          s5 = update_overlay networkContainer (appendChild node) s4
      in s5\<lparr>neuralNodes :=
              neuralNodes s5 @ [\<lparr>node_element = eid node, node_x = x, node_y = y\<rparr>]\<rparr>)"

definition createNeuralNetwork :: "state \<Rightarrow> state option" where
  "createNeuralNetwork s =
     (case bgContainer s of
        None \<Rightarrow> None
      | Some bg \<Rightarrow>
          (case querySelector [ByClass ''neural-network''] bg of
             None \<Rightarrow> None
           | Some networkContainer \<Rightarrow>
               Some (createNeuralConnections (eid networkContainer)
                       (fold (\<lambda>i. addNode (eid networkContainer)) [0..<nodeCount s] s))))"

section \<open>Resize and teardown\<close>

definition handleResize :: "state \<Rightarrow> state option" where
  "handleResize s =
     (case bgContainer s of
        None \<Rightarrow> None
      | Some bg \<Rightarrow>
          (case querySelector [ByClass ''floating-shapes''] bg of
             None \<Rightarrow> None
           | Some shapesContainer \<Rightarrow>
               (case createFloatingShapes
                       (update_overlay (eid shapesContainer) clear_children s) of
                  None \<Rightarrow> None
                | Some s1 \<Rightarrow>
                    (case bgContainer s1 of
                       None \<Rightarrow> None
                     | Some bg1 \<Rightarrow>
                         (case querySelector [ByClass ''neural-network''] bg1 of
                            None \<Rightarrow> None
                          | Some networkContainer \<Rightarrow>
                              createNeuralNetwork
                                ((update_overlay (eid networkContainer) clear_children s1)
                                   \<lparr>neuralNodes := []\<rparr>))))))"

definition destroy :: "state \<Rightarrow> state" where
  "destroy s =
     (let s1 = (case animationFrameId s of
                  None \<Rightarrow> s
                | Some h \<Rightarrow> if h \<noteq> 0 then cancelAnimationFrame h s else s)
      in case bgContainer s1 of
           None \<Rightarrow> s1
         | Some bg \<Rightarrow> s1\<lparr>bgAttached := False\<rparr>)"

section \<open>Scroll-triggered reveal\<close>

record entry =
  isIntersecting :: bool
  target :: nat

text \<open>
  The callback of the observer, for one entry and for the list of entries. The target
  and the fade-in elements are elements of the page: the overlay holds no element with
  one of the observed classes.
\<close>

definition onEntry :: "entry \<Rightarrow> state \<Rightarrow> state" where
  "onEntry e s =
     (if isIntersecting e then
        (case closest [ByClass ''hero-cta'', ByClass ''grid''] (target e) (document s) of
           Some container \<Rightarrow>
             fold (\<lambda>(index, sibling) s'.
                     snd (setTimeout (AddInView (eid sibling)) (index * 200) s'))
                  (enumerate 0 (querySelectorAll [ByClass ''fade-in-element''] container)) s
         | None \<Rightarrow> update_page (target e) (classList_add ''in-view'') s)
      else s)"

definition onIntersection :: "entry list \<Rightarrow> state \<Rightarrow> state" where
  "onIntersection entries s = fold onEntry entries s"

definition setupScrollAnimations :: "state \<Rightarrow> state" where
  "setupScrollAnimations s =
     s\<lparr>observed :=
         map eid (document_querySelectorAll
                    [ByClass ''fade-in-element'', ByClass ''portal-card'', ByClass ''hero-cta''] s)\<rparr>"

section \<open>Buttons: hover, leave, ripple\<close>

record mouse_event =
  event_target :: nat
  clientX :: real
  clientY :: real

text \<open>The declarations of the ripple's \<^verbatim>\<open>cssText\<close>, in the order of the template.\<close>

definition ripple_cssText :: "real \<Rightarrow> real \<Rightarrow> real \<Rightarrow> (string \<times> jsstring) list" where
  "ripple_cssText sz x y =
     [(''position'', [Lit ''absolute'']),
      (''width'', [Num sz, Lit ''px'']),
      (''height'', [Num sz, Lit ''px'']),
      (''left'', [Num x, Lit ''px'']),
      (''top'', [Num y, Lit ''px'']),
      (''background'',
         [Lit ''radial-gradient(circle, rgba(6, 182, 212, 0.6) 0%, transparent 70%)'']),
      (''border-radius'', [Lit ''50%'']),
      (''transform'', [Lit ''scale(0)'']),
      (''animation'', [Lit ''ripple 0.6s ease-out forwards'']),
      (''pointer-events'', [Lit ''none'']),
      (''z-index'', [Lit ''0''])]"

definition set_cssText :: "(string \<times> jsstring) list \<Rightarrow> element \<Rightarrow> element" where
  "set_cssText decls e = (case e of Element i t cl st ch \<Rightarrow> Element i t cl decls ch)"

definition createRippleEffect :: "nat \<Rightarrow> mouse_event \<Rightarrow> state \<Rightarrow> state" where
  "createRippleEffect el ev s =
     (let rect = layout s el;
          size = max (rect_width rect) (rect_height rect);
          x = clientX ev - rect_left rect - size / 2;
          y = clientY ev - rect_top rect - size / 2;
          (ripple, s1) = createElement ''div'' s;
          ripple = set_cssText (ripple_cssText size x y) ripple;
          s2 = update_page el (set_style ''position'' [Lit ''relative'']) s1;
          s3 = update_page el (set_style ''overflow'' [Lit ''hidden'']) s2;
          s4 = update_page el (appendChild ripple) s3
      in snd (setTimeout (RemoveRipple (eid ripple)) 600 s4))"

definition onButtonHover :: "mouse_event \<Rightarrow> state \<Rightarrow> state" where
  "onButtonHover ev s =
     (let button = event_target ev;
          s1 = update_page button (set_style ''transform'' [Lit ''translateY(-4px)'']) s
      in createRippleEffect button ev s1)"

definition onButtonLeave :: "mouse_event \<Rightarrow> state \<Rightarrow> state" where
  "onButtonLeave ev s = update_page (event_target ev) (set_style ''transform'' []) s"

definition setupInteractiveElements :: "state \<Rightarrow> state" where
  "setupInteractiveElements s =
     (let buttons = document_querySelectorAll [ByClass ''btn-primary'', ByClass ''btn-secondary''] s;
          portalCards = document_querySelectorAll [ByClass ''portal-card''] s;
          icons = document_querySelectorAll [ByTag ''svg''] s;
          s1 = s\<lparr>button_listeners := button_listeners s @ map eid buttons,
                 card_listeners := card_listeners s @ map eid portalCards\<rparr>
      in fold (\<lambda>icon. update_page (eid icon) (classList_add ''icon-bounce'')) icons s1)"

section \<open>The frame loop, reduced motion, initialisation\<close>

definition updateAnimations :: "state \<Rightarrow> state" where
  "updateAnimations s = s"

text \<open>The frame callback \<^verbatim>\<open>animate\<close> of \<^verbatim>\<open>startAnimationLoop\<close>.\<close>

definition animate :: "real \<Rightarrow> state \<Rightarrow> state" where
  "animate currentTime s =
     (let s0 = s\<lparr>frames_run := frames_run s + 1\<rparr>;
          s1 = (if fsub currentTime (lastTime s0) \<ge> 16
                then (updateAnimations s0)\<lparr>lastTime := currentTime\<rparr> else s0);
          (h, s2) = requestAnimationFrame s1
      in s2\<lparr>animationFrameId := Some h\<rparr>)"

definition startAnimationLoop :: "state \<Rightarrow> state" where
  "startAnimationLoop s =
     (let (h, s1) = requestAnimationFrame s in s1\<lparr>animationFrameId := Some h\<rparr>)"

definition reduced_motion_css :: "css_rule list" where
  "reduced_motion_css =
     [Rule [''*'', ''*::before'', ''*::after'']
        [(''animation-duration'', Milliseconds (1 / 100), True),
         (''animation-iteration-count'', Number 1, True),
         (''transition-duration'', Milliseconds (1 / 100), True)]]"

definition disableAnimations :: "state \<Rightarrow> state" where
  "disableAnimations s = s\<lparr>head_styles := head_styles s @ [reduced_motion_css]\<rparr>"

definition init :: "state \<Rightarrow> state option" where
  "init s =
     (case createFuturisticBackground s of
        None \<Rightarrow> None
      | Some s1 \<Rightarrow>
          (case initParticleSystem (setupScrollAnimations s1) of
             None \<Rightarrow> None
           | Some s3 \<Rightarrow>
               (case createNeuralNetwork s3 of
                  None \<Rightarrow> None
                | Some s4 \<Rightarrow>
                    (let s6 = startAnimationLoop (setupInteractiveElements s4)
                     in Some (if isReducedMotion s6 then disableAnimations s6 else s6)))))"

definition constructor :: "state \<Rightarrow> state option" where
  "constructor s =
     init (s\<lparr>particles := [], neuralNodes := [],
             isReducedMotion := prefers_reduced_motion s,
             animationFrameId := None, lastTime := 0\<rparr>)"

section \<open>The script and the events of the host\<close>

definition rippleCSS :: "css_rule list" where
  "rippleCSS =
     [Keyframes ''ripple'' [(''to'', [(''transform'', Text ''scale(2)''), (''opacity'', Number 0)])]]"

text \<open>
  What the page gives: its document, the viewport width, the motion preference, the
  random numbers and the layout. The document of an HTML page is an html element with a
  body: \<open>env_html\<close> gives the identity, classes and inline style of the html element and
  its children before the body (the head), \<open>env_body\<close> the identity, classes, inline
  style and children of the body.
\<close>

record environment =
  env_html :: element
  env_body :: element
  env_innerWidth :: int
  env_reduced_motion :: bool
  env_randoms :: "nat \<Rightarrow> real"
  env_layout :: "nat \<Rightarrow> dom_rect"

definition html_document :: "element \<Rightarrow> element \<Rightarrow> element" where
  "html_document h b =
     Element (eid h) ''html'' (classList h) (style h)
       (childNodes h @ [Element (eid b) ''body'' (classList b) (style b) (childNodes b)])"

text \<open>
  The state when the script has been evaluated: the ripple style is in the head, nothing
  is scheduled, and the identities not yet in use start above those of the page.
\<close>

definition loaded :: "environment \<Rightarrow> state" where
  "loaded env =
     \<lparr>page = [html_document (env_html env) (env_body env)],
      head_styles = [rippleCSS],
      next_eid =
        Suc (fold max (map eid (elements_of [html_document (env_html env) (env_body env)])) 0),
      innerWidth = env_innerWidth env,
      prefers_reduced_motion = env_reduced_motion env,
      randoms = env_randoms env,
      randoms_used = 0,
      layout = env_layout env,
      clock = 0,
      timers = [],
      next_timer = 1,
      frame_requests = [],
      frame_counter = 0,
      observed = [],
      button_listeners = [],
      card_listeners = [],
      resizeTimeout = None,
      particles = [],
      neuralNodes = [],
      isReducedMotion = False,
      animationFrameId = None,
      lastTime = 0,
      bgContainer = None,
      bgAttached = False,
      frames_run = 0\<rparr>"

text \<open>The listener of \<^verbatim>\<open>DOMContentLoaded\<close>: the controller is constructed.\<close>

definition boot :: "environment \<Rightarrow> state option" where
  "boot env = constructor (loaded env)"

text \<open>The listener of \<^verbatim>\<open>resize\<close> installed at \<^verbatim>\<open>DOMContentLoaded\<close>.\<close>

definition onResize :: "state \<Rightarrow> state" where
  "onResize s =
     (let s1 = clearTimeout (resizeTimeout s) s;
          (h, s2) = setTimeout CallHandleResize 250 s1
      in s2\<lparr>resizeTimeout := Some h\<rparr>)"

fun run_callback :: "callback \<Rightarrow> state \<Rightarrow> state option" where
  "run_callback (AddInView i) s = Some (update_page i (classList_add ''in-view'') s)"
| "run_callback (RemoveRipple i) s = Some (s\<lparr>page := remove_from i (page s)\<rparr>)"
| "run_callback CallHandleResize s = handleResize s"

text \<open>
  The events. An animation ends only on an element that is rendered: a particle that is
  a child of the attached container. A timer runs only when it is due. A frame runs the
  callbacks requested before it. Pointer events reach the listeners that
  \<^verbatim>\<open>setupInteractiveElements\<close> attached. An event that cannot happen in a state leaves
  it as it is.
\<close>

datatype event =
    AnimationEnd nat
  | Resize int
  | Elapse nat
  | Timeout nat
  | AnimationFrame real
  | Intersection "entry list"
  | MouseEnter mouse_event
  | MouseLeave mouse_event
  | Destroy

definition is_particle :: "element \<Rightarrow> bool" where
  "is_particle e = contains ''particle'' e"

definition rendered_particles :: "state \<Rightarrow> element list" where
  "rendered_particles s =
     (case bgContainer s of
        None \<Rightarrow> []
      | Some bg \<Rightarrow> if bgAttached s then filter is_particle (childNodes bg) else [])"

definition run_frame :: "real \<Rightarrow> state \<Rightarrow> state" where
  "run_frame t s =
     fold (\<lambda>h s'. if h \<in> set (frame_requests s')
                   then animate t (s'\<lparr>frame_requests := removeAll h (frame_requests s')\<rparr>)
                   else s')
          (frame_requests s) s"

fun step :: "event \<Rightarrow> state \<Rightarrow> state option" where
  "step (AnimationEnd p) s =
     (if p \<in> set (map eid (rendered_particles s)) then onParticleAnimationEnd p s else Some s)"
| "step (Resize w) s = Some (onResize (s\<lparr>innerWidth := w\<rparr>))"
| "step (Elapse d) s = Some (s\<lparr>clock := clock s + d\<rparr>)"
| "step (Timeout i) s =
     (case find (\<lambda>tm. timer_id tm = i) (timers s) of
        None \<Rightarrow> Some s
      | Some tm \<Rightarrow>
          if due tm \<le> clock s
          then run_callback (action tm)
                 (s\<lparr>timers := filter (\<lambda>tm'. timer_id tm' \<noteq> i) (timers s)\<rparr>)
          else Some s)"
| "step (AnimationFrame t) s = Some (run_frame t s)"
| "step (Intersection entries) s = Some (onIntersection entries s)"
| "step (MouseEnter ev) s =
     (let s1 = (if event_target ev \<in> set (button_listeners s) then onButtonHover ev s else s)
      in Some (if event_target ev \<in> set (card_listeners s)
               then update_page (event_target ev) onCardMouseMove s1 else s1))"
| "step (MouseLeave ev) s =
     (let s1 = (if event_target ev \<in> set (button_listeners s) then onButtonLeave ev s else s)
      in Some (if event_target ev \<in> set (card_listeners s)
               then update_page (event_target ev) onCardMouseLeave s1 else s1))"
| "step Destroy s = Some (destroy s)"

fun run :: "state \<Rightarrow> event list \<Rightarrow> state option" where
  "run s [] = Some s"
| "run s (e # es) = (case step e s of None \<Rightarrow> None | Some s' \<Rightarrow> run s' es)"

section \<open>Observations and invariants\<close>

text \<open>
  The overlay as \<^verbatim>\<open>createFuturisticBackground\<close> builds it: the container with identity
  \<open>b\<close>, its three sublayers with the identities that follow, and the particles appended
  after them. \<open>ns\<close> are the children of the neural-network layer, \<open>ss\<close> those of the
  floating-shapes layer, \<open>ps\<close> the particles.
\<close>

definition mk_overlay :: "nat \<Rightarrow> element list \<Rightarrow> element list \<Rightarrow> element list \<Rightarrow> element" where
  "mk_overlay b ns ss ps =
     Element b ''div'' [''futuristic-bg''] []
       (Element (b + 1) ''div'' [''digital-grid''] [] []
        # Element (b + 2) ''div'' [''neural-network''] [] ns
        # Element (b + 3) ''div'' [''floating-shapes''] [] ss
        # ps)"

text \<open>
  An element the generators create: one class out of \<open>cs\<close>, no children, an identity
  handed out after the sublayers and before \<open>hi\<close>.
\<close>

definition leaf :: "string list \<Rightarrow> nat \<Rightarrow> nat \<Rightarrow> element \<Rightarrow> bool" where
  "leaf cs lo hi e =
     (length (classList e) = 1 \<and> set (classList e) \<subseteq> set cs \<and> childNodes e = [] \<and>
      lo < eid e \<and> eid e < hi)"

text \<open>
  The structural invariant of the controller: \<^verbatim>\<open>this.bgContainer\<close> is the overlay
  with these children, all of them created by the generators, with pairwise distinct
  identities below the next one to be handed out.
\<close>

definition overlay_is :: "state \<Rightarrow> nat \<Rightarrow> element list \<Rightarrow> element list \<Rightarrow> element list \<Rightarrow> bool" where
  "overlay_is s b ns ss ps =
     (bgContainer s = Some (mk_overlay b ns ss ps) \<and> b + 3 < next_eid s \<and>
      list_all (leaf [''neural-node'', ''neural-connection''] (b + 3) (next_eid s)) ns \<and>
      list_all (leaf [''hex-shape''] (b + 3) (next_eid s)) ss \<and>
      list_all (leaf [''particle''] (b + 3) (next_eid s)) ps \<and>
      distinct (map eid (ns @ ss @ ps)))"

text \<open>The elements of the overlay with a given class, in document order.\<close>

definition overlay_elements :: "string \<Rightarrow> state \<Rightarrow> element list" where
  "overlay_elements c s =
     (case bgContainer s of None \<Rightarrow> [] | Some bg \<Rightarrow> querySelectorAll [ByClass c] bg)"

text \<open>
  Frame conditions: \<open>overlay_only\<close> relates two states that differ at most in the
  overlay, the identities and random numbers used, and \<^verbatim>\<open>this.neuralNodes\<close>;
  \<open>draws_only\<close> moreover keeps \<^verbatim>\<open>this.neuralNodes\<close>.
\<close>

definition overlay_only :: "state \<Rightarrow> state \<Rightarrow> bool" where
  "overlay_only s s' =
     (\<exists>ne ru nn bg. s' = s\<lparr>next_eid := ne, randoms_used := ru, neuralNodes := nn, bgContainer := bg\<rparr>)"

definition draws_only :: "state \<Rightarrow> state \<Rightarrow> bool" where
  "draws_only s s' =
     (\<exists>ne ru bg. s' = s\<lparr>next_eid := ne, randoms_used := ru, bgContainer := bg\<rparr>)"

text \<open>
  The geometry of a connection element (left, top, width, transform), and the geometry
  the source computes for the pair of an earlier node \<open>a\<close> and a later node \<open>c\<close>.
\<close>

definition geometry :: "element \<Rightarrow> jsstring \<times> jsstring \<times> jsstring \<times> jsstring" where
  "geometry e =
     (get_style ''left'' e, get_style ''top'' e, get_style ''width'' e, get_style ''transform'' e)"

definition line :: "neural_node \<Rightarrow> neural_node \<Rightarrow> jsstring \<times> jsstring \<times> jsstring \<times> jsstring" where
  "line a c =
     ([Num (node_x a), Lit ''%''], [Num (node_y a), Lit ''%''],
      [Num (distance a c), Lit ''%''],
      [Lit ''rotate('',
       Num (Math_atan2 (fsub (node_y c) (node_y a)) (fsub (node_x c) (node_x a))),
       Lit ''rad)''])"

text \<open>The children of the neural-network layer.\<close>

definition network_children :: "state \<Rightarrow> element list" where
  "network_children s =
     (case bgContainer s of
        None \<Rightarrow> []
      | Some bg \<Rightarrow>
          (case querySelector [ByClass ''neural-network''] bg of
             None \<Rightarrow> []
           | Some c \<Rightarrow> childNodes c))"

text \<open>What the handlers of the page (pointer, observer, timers of the page) leave alone.\<close>

definition page_side :: "state \<Rightarrow> state \<Rightarrow> bool" where
  "page_side s s' =
     (bgContainer s' = bgContainer s \<and> bgAttached s' = bgAttached s \<and>
      next_eid s \<le> next_eid s' \<and> neuralNodes s' = neuralNodes s \<and>
      frame_requests s' = frame_requests s \<and> frame_counter s' = frame_counter s \<and>
      animationFrameId s' = animationFrameId s \<and> frames_run s' = frames_run s \<and>
      head_styles s' = head_styles s \<and> innerWidth s' = innerWidth s \<and>
      isReducedMotion s' = isReducedMotion s)"

text \<open>
  The invariant of the frame loop: at most one frame is requested, and its handle is the
  one stored in \<^verbatim>\<open>this.animationFrameId\<close>.
\<close>

definition loop_inv :: "state \<Rightarrow> bool" where
  "loop_inv s =
     (frame_requests s = [] \<or>
      (\<exists>h. 0 < h \<and> frame_requests s = [h] \<and> animationFrameId s = Some h))"

text \<open>The invariant of the reachable states, with the number of particles.\<close>

definition inv :: "nat \<Rightarrow> state \<Rightarrow> bool" where
  "inv n s = ((\<exists>b ns ss ps. overlay_is s b ns ss ps \<and> length ps = n) \<and> loop_inv s)"

text \<open>A step that neither requests nor runs a frame and keeps the overlay where it is.\<close>

definition quiet :: "state \<Rightarrow> state \<Rightarrow> bool" where
  "quiet s s' =
     (frame_requests s' = frame_requests s \<and> frames_run s' = frames_run s \<and>
      bgAttached s' = bgAttached s)"

text \<open>The state after teardown: no frame requested, the overlay out of the body.\<close>

definition stopped :: "state \<Rightarrow> bool" where
  "stopped s = (frame_requests s = [] \<and> \<not> bgAttached s)"

text \<open>
  The durations a rule declares \<^verbatim>\<open>!important\<close> for a property, in milliseconds, each
  with the selectors of its rule.
\<close>

fun important_ms :: "string \<Rightarrow> css_rule \<Rightarrow> (string list \<times> real) list" where
  "important_ms p (Rule sels decls) =
     concat (map (\<lambda>(q, v, i). case v of
                                  Milliseconds ms \<Rightarrow> if q = p \<and> i then [(sels, ms)] else []
                                | _ \<Rightarrow> []) decls)"
| "important_ms p (Keyframes n fs) = []"

text \<open>
  Two states with an empty overlay and one pair of nodes each, to evaluate the connections
  on. The coordinates are binary64 values, near (6.2020, 46.2929) and (33.8888, 57.8447)
  for the first pair, near (12.9249, 77.7398) and (20.5485, 48.7246) for the second.
\<close>

definition sample_state :: state where
  "sample_state =
     (loaded \<lparr>env_html = Element 101 ''html'' [] [] [Element 102 ''head'' [] [] []],
              env_body = Element 103 ''body'' [] [] [], env_innerWidth = 1024,
              env_reduced_motion = False, env_randoms = (\<lambda>n. 1 / 2),
              env_layout = (\<lambda>i. \<lparr>rect_left = 0, rect_top = 0, rect_width = 0, rect_height = 0\<rparr>)\<rparr>)
       \<lparr>next_eid := 5, bgContainer := Some (mk_overlay 1 [] [] []),
        neuralNodes :=
          [\<lparr>node_element = 0, node_x = 3491441049456175 / 2 ^ 49, node_y = 1628786575746161 / 2 ^ 45\<rparr>,
           \<lparr>node_element = 0, node_x = 1192355973809975 / 2 ^ 45, node_y = 4070458201892867 / 2 ^ 46\<rparr>]\<rparr>"

definition sample_threshold_state :: state where
  "sample_threshold_state =
     sample_state
       \<lparr>neuralNodes :=
          [\<lparr>node_element = 0, node_x = 1819023462357525 / 2 ^ 47, node_y = 5470449638615039 / 2 ^ 46\<rparr>,
           \<lparr>node_element = 0, node_x = 5783886465085075 / 2 ^ 48, node_y = 6857373872331069 / 2 ^ 47\<rparr>]\<rparr>"

text \<open>
  The element of a forest with a given identity (the first in document order), if any.
\<close>

fun find_element :: "nat \<Rightarrow> element \<Rightarrow> element option"
  and find_in :: "nat \<Rightarrow> element list \<Rightarrow> element option" where
  "find_element i (Element j t cl st ch) =
     (if i = j then Some (Element j t cl st ch) else find_in i ch)"
| "find_in i [] = None"
| "find_in i (c # cs) = (case find_element i c of None \<Rightarrow> find_in i cs | Some e \<Rightarrow> Some e)"

text \<open>
  The page after the three style assignments of a button hover, and the ripple element
  that \<^verbatim>\<open>createRippleEffect\<close> creates.
\<close>

definition hovered_page :: "mouse_event \<Rightarrow> state \<Rightarrow> element list" where
  "hovered_page ev s =
     map (update_element (event_target ev) (set_style ''overflow'' [Lit ''hidden'']))
       (map (update_element (event_target ev) (set_style ''position'' [Lit ''relative'']))
         (map (update_element (event_target ev) (set_style ''transform'' [Lit ''translateY(-4px)'']))
           (page s)))"

definition the_ripple :: "mouse_event \<Rightarrow> state \<Rightarrow> element" where
  "the_ripple ev s =
     (let rect = layout s (event_target ev);
          size = max (rect_width rect) (rect_height rect)
      in Element (next_eid s) ''div'' [] 
           (ripple_cssText size (clientX ev - rect_left rect - size / 2)
              (clientY ev - rect_top rect - size / 2)) [])"

text \<open>A page with one button, laid out at (10, 10) with size 100 by 40, and a pointer event on it.\<close>

definition sample_button_state :: state where
  "sample_button_state =
     loaded \<lparr>env_html = Element 101 ''html'' [] [] [Element 102 ''head'' [] [] []],
             env_body = Element 103 ''body'' [] [] [Element 1 ''button'' [''btn-primary''] [] []],
             env_innerWidth = 1024,
             env_reduced_motion = False, env_randoms = (\<lambda>n. 1 / 2),
             env_layout = (\<lambda>i. \<lparr>rect_left = 10, rect_top = 10, rect_width = 100,
                                 rect_height = 40\<rparr>)\<rparr>"

definition sample_hover :: mouse_event where
  "sample_hover = \<lparr>event_target = 1, clientX = 30, clientY = 20\<rparr>"

text \<open>
  An element with identity \<open>j\<close> in the forest carries the class \<open>c\<close>; an element of
  the page is revealed when it carries the class in-view.
\<close>

definition marked :: "string \<Rightarrow> nat \<Rightarrow> element list \<Rightarrow> bool" where
  "marked c j es = list_ex (\<lambda>e. eid e = j \<and> contains c e) (elements_of es)"

definition revealed :: "nat \<Rightarrow> state \<Rightarrow> bool" where
  "revealed j s = marked ''in-view'' j (page s)"

text \<open>
  What a step other than an intersection can do to the reveals: time does not go back,
  no reveal is scheduled, and an element is newly revealed only by a reveal timer that
  was due.
\<close>

definition reveal_step :: "state \<Rightarrow> state \<Rightarrow> bool" where
  "reveal_step s s' =
     (clock s \<le> clock s' \<and>
      (\<forall>tm k. tm \<in> set (timers s') \<longrightarrow> action tm = AddInView k \<longrightarrow> tm \<in> set (timers s)) \<and>
      (\<forall>j. revealed j s' \<longrightarrow>
         revealed j s \<or> (\<exists>tm\<in>set (timers s). action tm = AddInView j \<and> due tm \<le> clock s)))"

text \<open>A step that leaves the page, the timers and the clock alone.\<close>

definition same_page :: "state \<Rightarrow> state \<Rightarrow> bool" where
  "same_page s s' = (page s' = page s \<and> timers s' = timers s \<and> clock s' = clock s)"

text \<open>The selectors of the observer callback, and the identities a selection gives.\<close>

definition containers :: "selector list" where
  "containers = [ByClass ''hero-cta'', ByClass ''grid'']"

definition fade_in :: "selector list" where
  "fade_in = [ByClass ''fade-in-element'']"

definition fade_ids :: "element \<Rightarrow> nat list" where
  "fade_ids c = map eid (querySelectorAll fade_in c)"

text \<open>
  The sibling \<open>j\<close> is held back to position \<open>i\<close> in a forest when no recognized
  container of the forest has it among the first \<open>i\<close> of its fade-in elements.
\<close>

definition held_back :: "nat \<Rightarrow> nat \<Rightarrow> element list \<Rightarrow> bool" where
  "held_back j i roots =
     list_all (\<lambda>c. matches containers c \<longrightarrow> j \<notin> set (take i (fade_ids c))) (elements_of roots)"

text \<open>
  What the script creates, the overlay and the ripples, carries none of the classes the
  observer callback looks at. \<open>scripted b e\<close>: the element \<open>e\<close> and its descendants
  have identities from \<open>b\<close> on and none of these classes. \<open>clean b e\<close>: every
  element of the tree of \<open>e\<close> with an identity from \<open>b\<close> on is scripted.
\<close>

definition inert :: "string list \<Rightarrow> bool" where
  "inert cl = (''hero-cta'' \<notin> set cl \<and> ''grid'' \<notin> set cl \<and> ''fade-in-element'' \<notin> set cl)"

fun scripted :: "nat \<Rightarrow> element \<Rightarrow> bool"
  and all_scripted :: "nat \<Rightarrow> element list \<Rightarrow> bool" where
  "scripted b (Element i t cl st ch) = (b \<le> i \<and> inert cl \<and> all_scripted b ch)"
| "all_scripted b [] = True"
| "all_scripted b (c # cs) = (scripted b c \<and> all_scripted b cs)"

fun clean :: "nat \<Rightarrow> element \<Rightarrow> bool"
  and all_clean :: "nat \<Rightarrow> element list \<Rightarrow> bool" where
  "clean b (Element i t cl st ch) =
     (if b \<le> i then inert cl \<and> all_scripted b ch else all_clean b ch)"
| "all_clean b [] = True"
| "all_clean b (c # cs) = (clean b c \<and> all_clean b cs)"

text \<open>
  A state is hygienic for \<open>b\<close> when the identities still to be handed out start at
  \<open>b\<close> or later and the overlay is scripted, the page is clean, and the pending ripple
  removals name identities from \<open>b\<close> on.
\<close>

definition overlay_scripted :: "nat \<Rightarrow> state \<Rightarrow> bool" where
  "overlay_scripted b s =
     (b \<le> next_eid s \<and> (case bgContainer s of None \<Rightarrow> True | Some bg \<Rightarrow> scripted b bg))"

definition ripples_from :: "nat \<Rightarrow> timer list \<Rightarrow> bool" where
  "ripples_from b tms =
     list_all (\<lambda>tm. case action tm of RemoveRipple k \<Rightarrow> b \<le> k | _ \<Rightarrow> True) tms"

definition hygienic :: "nat \<Rightarrow> state \<Rightarrow> bool" where
  "hygienic b s =
     (overlay_scripted b s \<and> all_clean b (page s) \<and> ripples_from b (timers s))"

text \<open>
  The skeleton of a forest: the elements with identities below \<open>b\<close>, with the classes
  the observer callback looks at and nothing else.
\<close>

fun skeleton :: "nat \<Rightarrow> element \<Rightarrow> element"
  and skeletons :: "nat \<Rightarrow> element list \<Rightarrow> element list" where
  "skeleton b (Element i t cl st ch) =
     Element i t (filter (\<lambda>c. c = ''hero-cta'' \<or> c = ''grid'' \<or> c = ''fade-in-element'') cl) []
       (skeletons b ch)"
| "skeletons b [] = []"
| "skeletons b (c # cs) = (if b \<le> eid c then skeletons b cs else skeleton b c # skeletons b cs)"

text \<open>
  A mutation of one element is harmless when it keeps the identity, the skeleton, and
  what is scripted and clean.
\<close>

definition harmless :: "nat \<Rightarrow> (element \<Rightarrow> element) \<Rightarrow> bool" where
  "harmless b f =
     (\<forall>e. eid (f e) = eid e \<and> skeleton b (f e) = skeleton b e \<and>
          (scripted b e \<longrightarrow> scripted b (f e)) \<and> (clean b e \<longrightarrow> clean b (f e)))"

text \<open>
  The invariant after a trigger at time \<open>t0\<close> that holds the sibling \<open>j\<close> at
  position \<open>i\<close>: time has not gone back, a pending reveal of the sibling is due no
  earlier than \<open>t0 + i * 200\<close>, and the sibling is revealed only if it was before
  (\<open>old\<close>) or that time has come.
\<close>

definition stagger_inv :: "nat \<Rightarrow> nat \<Rightarrow> nat \<Rightarrow> bool \<Rightarrow> state \<Rightarrow> bool" where
  "stagger_inv t0 i j old s =
     (t0 \<le> clock s \<and>
      (\<forall>tm\<in>set (timers s). action tm = AddInView j \<longrightarrow> t0 + i * 200 \<le> due tm) \<and>
      (revealed j s \<longrightarrow> old \<or> t0 + i * 200 \<le> clock s))"

text \<open>
  Pages to evaluate the reveal on, each an html document with an empty head: a grid with
  two fade-in elements; a card outside any grouping container; the grid page 100ms after
  a first trigger, with the reveals of that trigger pending; a hero-cta container holding
  a fade-in element and a grid with a fade-in element of its own; a hero-cta container
  alone.
\<close>

definition sample_document :: "element list \<Rightarrow> state" where
  "sample_document content =
     loaded \<lparr>env_html = Element 101 ''html'' [] [] [Element 102 ''head'' [] [] []],
             env_body = Element 103 ''body'' [] [] content,
             env_innerWidth = 1024, env_reduced_motion = False, env_randoms = (\<lambda>n. 1 / 2),
             env_layout = (\<lambda>i. \<lparr>rect_left = 0, rect_top = 0, rect_width = 0, rect_height = 0\<rparr>)\<rparr>"

definition sample_grid :: element where
  "sample_grid =
     Element 5 ''div'' [''grid''] []
       [Element 6 ''div'' [''fade-in-element''] [] [],
        Element 7 ''div'' [''fade-in-element''] [] []]"

definition sample_grid_state :: state where
  "sample_grid_state = sample_document [sample_grid]"

definition sample_card_state :: state where
  "sample_card_state = sample_document [Element 5 ''div'' [''portal-card''] [] []]"

definition retriggered_grid_state :: state where
  "retriggered_grid_state =
     sample_grid_state
       \<lparr>timers := [\<lparr>timer_id = 1, due = 0, action = AddInView 6\<rparr>,
                   \<lparr>timer_id = 2, due = 200, action = AddInView 7\<rparr>],
        next_timer := 3, clock := 100\<rparr>"

definition sample_nested :: element where
  "sample_nested =
     Element 1 ''div'' [''hero-cta''] []
       [Element 2 ''div'' [''fade-in-element''] [] [],
        Element 3 ''div'' [''grid''] [] [Element 4 ''div'' [''fade-in-element''] [] []]]"

definition sample_nested_state :: state where
  "sample_nested_state = sample_document [sample_nested]"

definition sample_hero_state :: state where
  "sample_hero_state = sample_document [Element 5 ''div'' [''hero-cta''] [] []]"

section \<open>Card hover: palettes and leave\<close>

lemma get_set_style:
  "get_style p (set_style q v e) = (if p = q then v else get_style p e)"
  by (cases e) (simp add: get_style_def set_style_def update_conv' delete_conv')

lemma contains_set_style [simp]: "contains c (set_style p v e) = contains c e"
  by (cases e) (simp add: contains_def set_style_def)

lemma boxShadow_cyan:
  "boxShadow (shadowColor ''cyan'') =
     ''0 8px 25px rgba(6, 182, 212, 0.25), 0 0 20px rgba(6, 182, 212, 0.1)''"
  by (simp add: boxShadow_def shadowColor_def)

lemma boxShadow_blue:
  "boxShadow (shadowColor ''blue'') =
     ''0 8px 25px rgba(59, 130, 246, 0.25), 0 0 20px rgba(59, 130, 246, 0.1)''"
  by (simp add: boxShadow_def shadowColor_def)

lemma boxShadow_amber:
  "boxShadow (shadowColor ''amber'') =
     ''0 8px 25px rgba(245, 158, 11, 0.25), 0 0 20px rgba(245, 158, 11, 0.1)''"
  by (simp add: boxShadow_def shadowColor_def)

text \<open>
  C10. The hover of a card is defined for every card: the glow is the cyan palette when
  the card has the class student-portal, otherwise the blue palette when it has the class
  examiner-portal, otherwise the amber palette; in each case the card is raised and the
  transition is set.
\<close>

theorem card_hover_palette_total:
  "get_style ''boxShadow'' (onCardMouseMove c) =
     [Lit (if contains ''student-portal'' c
           then ''0 8px 25px rgba(6, 182, 212, 0.25), 0 0 20px rgba(6, 182, 212, 0.1)''
           else if contains ''examiner-portal'' c
           then ''0 8px 25px rgba(59, 130, 246, 0.25), 0 0 20px rgba(59, 130, 246, 0.1)''
           else ''0 8px 25px rgba(245, 158, 11, 0.25), 0 0 20px rgba(245, 158, 11, 0.1)'')]
   \<and> get_style ''transform'' (onCardMouseMove c) = [Lit ''translateY(-4px)'']
   \<and> get_style ''transition'' (onCardMouseMove c) =
       [Lit ''all 0.3s cubic-bezier(0.25, 0.8, 0.25, 1)'']"
  by (simp add: onCardMouseMove_def get_set_style cardType_def boxShadow_cyan boxShadow_blue
      boxShadow_amber Let_def)

text \<open>
  C6. Entering a card sets the raise, the glow and the transition (see the theorem of
  C10); leaving it clears the raise only. On a student-portal card without inline style,
  the glow set by the hover is still there after the pointer has left, where the card
  had none before.
\<close>

theorem card_leave_keeps_glow:
  "get_style ''boxShadow''
     (onCardMouseLeave
        (onCardMouseMove (Element 7 ''div'' [''portal-card'', ''student-portal''] [] []))) =
     [Lit ''0 8px 25px rgba(6, 182, 212, 0.25), 0 0 20px rgba(6, 182, 212, 0.1)'']
   \<and> get_style ''transform''
     (onCardMouseLeave
        (onCardMouseMove (Element 7 ''div'' [''portal-card'', ''student-portal''] [] []))) = []
   \<and> get_style ''boxShadow'' (Element 7 ''div'' [''portal-card'', ''student-portal''] [] []) = []"
proof (intro conjI)
  show "get_style ''boxShadow''
     (onCardMouseLeave
        (onCardMouseMove (Element 7 ''div'' [''portal-card'', ''student-portal''] [] []))) =
     [Lit ''0 8px 25px rgba(6, 182, 212, 0.25), 0 0 20px rgba(6, 182, 212, 0.1)'']"
    by (simp add: onCardMouseLeave_def onCardMouseMove_def get_set_style cardType_def
        boxShadow_cyan contains_def Let_def)
  show "get_style ''transform''
     (onCardMouseLeave
        (onCardMouseMove (Element 7 ''div'' [''portal-card'', ''student-portal''] [] []))) = []"
    by (simp add: onCardMouseLeave_def get_set_style)
  show "get_style ''boxShadow'' (Element 7 ''div'' [''portal-card'', ''student-portal''] [] []) = []"
    by (simp add: get_style_def)
qed

section \<open>The shape of the overlay\<close>

lemma elements_of_leaves:
  "list_all (\<lambda>e. childNodes e = []) xs \<Longrightarrow> elements_of xs = xs"
proof (induction xs)
  case Nil
  show ?case by simp
next
  case (Cons e xs)
  then show ?case by (cases e) simp
qed

lemma leaf_childless: "list_all (leaf cs lo hi) xs \<Longrightarrow> list_all (\<lambda>e. childNodes e = []) xs"
  by (induction xs) (auto simp: leaf_def)

lemma leaf_mono: "leaf cs lo hi e \<Longrightarrow> hi \<le> hi' \<Longrightarrow> leaf cs lo hi' e"
  by (auto simp: leaf_def)

lemma leaves_mono: "list_all (leaf cs lo hi) xs \<Longrightarrow> hi \<le> hi' \<Longrightarrow> list_all (leaf cs lo hi') xs"
  by (induction xs) (auto intro: leaf_mono)

lemma leaf_no_match: "leaf cs lo hi e \<Longrightarrow> c \<notin> set cs \<Longrightarrow> \<not> matches [ByClass c] e"
  by (auto simp: leaf_def matches_def contains_def)

lemma leaf_match: "leaf [c] lo hi e \<Longrightarrow> matches [ByClass c] e"
  by (cases "classList e") (auto simp: leaf_def matches_def contains_def)

lemma filter_leaves_none:
  "list_all (leaf cs lo hi) xs \<Longrightarrow> c \<notin> set cs \<Longrightarrow> filter (matches [ByClass c]) xs = []"
  by (induction xs) (auto dest: leaf_no_match)

lemma filter_leaves_all:
  "list_all (leaf [c] lo hi) xs \<Longrightarrow> filter (matches [ByClass c]) xs = xs"
  by (induction xs) (auto dest: leaf_match)

lemma descendants_mk_overlay:
  assumes "list_all (\<lambda>e. childNodes e = []) ns" "list_all (\<lambda>e. childNodes e = []) ss"
    "list_all (\<lambda>e. childNodes e = []) ps"
  shows "descendants (mk_overlay b ns ss ps) =
     Element (b + 1) ''div'' [''digital-grid''] [] []
     # Element (b + 2) ''div'' [''neural-network''] [] ns # ns
     @ Element (b + 3) ''div'' [''floating-shapes''] [] ss # ss @ ps"
  using assms by (simp add: mk_overlay_def elements_of_leaves)

lemma overlay_descendants:
  assumes "overlay_is s b ns ss ps"
  shows "descendants (mk_overlay b ns ss ps) =
     Element (b + 1) ''div'' [''digital-grid''] [] []
     # Element (b + 2) ''div'' [''neural-network''] [] ns # ns
     @ Element (b + 3) ''div'' [''floating-shapes''] [] ss # ss @ ps"
  using assms by (intro descendants_mk_overlay) (auto simp: overlay_is_def dest: leaf_childless)

lemma query_shapes:
  assumes "overlay_is s b ns ss ps"
  shows "querySelector [ByClass ''floating-shapes''] (mk_overlay b ns ss ps) =
     Some (Element (b + 3) ''div'' [''floating-shapes''] [] ss)"
proof -
  have "filter (matches [ByClass ''floating-shapes'']) ns = []"
    using assms by (auto simp: overlay_is_def intro: filter_leaves_none)
  then show ?thesis
    by (simp add: querySelector_def querySelectorAll_def overlay_descendants [OF assms]
        matches_def contains_def)
qed

lemma query_network:
  assumes "overlay_is s b ns ss ps"
  shows "querySelector [ByClass ''neural-network''] (mk_overlay b ns ss ps) =
     Some (Element (b + 2) ''div'' [''neural-network''] [] ns)"
  by (simp add: querySelector_def querySelectorAll_def overlay_descendants [OF assms]
      matches_def contains_def)

lemma overlay_particles:
  assumes "overlay_is s b ns ss ps"
  shows "overlay_elements ''particle'' s = ps"
proof -
  have "filter (matches [ByClass ''particle'']) ns = []"
    "filter (matches [ByClass ''particle'']) ss = []"
    "filter (matches [ByClass ''particle'']) ps = ps"
    using assms by (auto simp: overlay_is_def intro: filter_leaves_none filter_leaves_all)
  then show ?thesis using assms
    by (simp add: overlay_elements_def querySelectorAll_def overlay_descendants [OF assms]
        matches_def contains_def overlay_is_def)
qed

lemma overlay_shapes:
  assumes "overlay_is s b ns ss ps"
  shows "overlay_elements ''hex-shape'' s = ss"
proof -
  have "filter (matches [ByClass ''hex-shape'']) ns = []"
    "filter (matches [ByClass ''hex-shape'']) ps = []"
    "filter (matches [ByClass ''hex-shape'']) ss = ss"
    using assms by (auto simp: overlay_is_def intro: filter_leaves_none filter_leaves_all)
  then show ?thesis using assms
    by (simp add: overlay_elements_def querySelectorAll_def overlay_descendants [OF assms]
        matches_def contains_def overlay_is_def)
qed

lemma update_leaf: "childNodes e = [] \<Longrightarrow> eid e \<noteq> i \<Longrightarrow> update_element i f e = e"
  by (cases e) auto

lemma update_leaves:
  "list_all (leaf cs lo hi) xs \<Longrightarrow> i \<le> lo \<Longrightarrow> map (update_element i f) xs = xs"
  by (induction xs) (auto simp: leaf_def update_leaf)

lemma update_shapes:
  assumes "overlay_is s b ns ss ps"
  shows "update_element (b + 3) f (mk_overlay b ns ss ps) =
     Element b ''div'' [''futuristic-bg''] []
       (Element (b + 1) ''div'' [''digital-grid''] [] []
        # Element (b + 2) ''div'' [''neural-network''] [] ns
        # f (Element (b + 3) ''div'' [''floating-shapes''] [] ss)
        # ps)"
proof -
  have "map (update_element (b + 3) f) ns = ns" "map (update_element (b + 3) f) ps = ps"
    using assms by (auto simp: overlay_is_def intro: update_leaves)
  then show ?thesis by (simp add: mk_overlay_def)
qed

lemma update_network:
  assumes "overlay_is s b ns ss ps"
  shows "update_element (b + 2) f (mk_overlay b ns ss ps) =
     Element b ''div'' [''futuristic-bg''] []
       (Element (b + 1) ''div'' [''digital-grid''] [] []
        # f (Element (b + 2) ''div'' [''neural-network''] [] ns)
        # Element (b + 3) ''div'' [''floating-shapes''] [] ss
        # ps)"
proof -
  have "map (update_element (b + 2) f) ss = ss" "map (update_element (b + 2) f) ps = ps"
    using assms by (auto simp: overlay_is_def intro: update_leaves)
  then show ?thesis by (simp add: mk_overlay_def)
qed

lemma append_shape:
  assumes "overlay_is s b ns ss ps"
  shows "update_element (b + 3) (appendChild x) (mk_overlay b ns ss ps) =
     mk_overlay b ns (ss @ [x]) ps"
  by (simp add: update_shapes [OF assms] appendChild_def) (simp add: mk_overlay_def)

lemma clear_shapes:
  assumes "overlay_is s b ns ss ps"
  shows "update_element (b + 3) clear_children (mk_overlay b ns ss ps) = mk_overlay b ns [] ps"
  by (simp add: update_shapes [OF assms] clear_children_def) (simp add: mk_overlay_def)

lemma append_network:
  assumes "overlay_is s b ns ss ps"
  shows "update_element (Suc (Suc b)) (appendChild x) (mk_overlay b ns ss ps) =
     mk_overlay b (ns @ [x]) ss ps"
  using update_network [OF assms, of "appendChild x"] by (simp add: appendChild_def mk_overlay_def)

lemma clear_network:
  assumes "overlay_is s b ns ss ps"
  shows "update_element (Suc (Suc b)) clear_children (mk_overlay b ns ss ps) = mk_overlay b [] ss ps"
  using update_network [OF assms, of clear_children] by (simp add: clear_children_def mk_overlay_def)

lemma append_particle:
  "appendChild x (mk_overlay b ns ss ps) = mk_overlay b ns ss (ps @ [x])"
  by (simp add: appendChild_def mk_overlay_def)

lemma remove_leaf: "childNodes e = [] \<Longrightarrow> remove_element i e = e"
  by (cases e) auto

lemma remove_leaves: "list_all (leaf cs lo hi) xs \<Longrightarrow> map (remove_element i) xs = xs"
  by (induction xs) (auto simp: leaf_def remove_leaf)

lemma filter_absent: "i \<notin> set (map eid xs) \<Longrightarrow> filter (\<lambda>c. eid c \<noteq> i) xs = xs"
  by (induction xs) auto

lemma filter_leaves: "list_all (leaf cs lo hi) xs \<Longrightarrow> list_all (leaf cs lo hi) (filter P xs)"
  by (induction xs) auto

lemma remove_particle:
  assumes "overlay_is s b ns ss ps" "p \<in> set (map eid ps)"
  shows "remove_element p (mk_overlay b ns ss ps) =
     mk_overlay b ns ss (filter (\<lambda>c. eid c \<noteq> p) ps)"
proof -
  have lv: "list_all (leaf [''particle''] (b + 3) (next_eid s)) ps"
    using assms by (simp add: overlay_is_def)
  have "b + 3 < p" using assms(2) lv by (auto simp: list_all_iff leaf_def)
  moreover have "p \<notin> set (map eid ns)" "p \<notin> set (map eid ss)"
    using assms by (auto simp: overlay_is_def)
  moreover have "map (remove_element p) ns = ns" "map (remove_element p) ss = ss"
    using assms by (auto simp: overlay_is_def intro: remove_leaves)
  moreover have "map (remove_element p) (filter (\<lambda>c. eid c \<noteq> p) ps) = filter (\<lambda>c. eid c \<noteq> p) ps"
    using filter_leaves [OF lv] by (rule remove_leaves)
  ultimately show ?thesis
    by (simp add: mk_overlay_def filter_absent)
qed

section \<open>The generators keep the overlay in shape\<close>

lemma overlay_only_refl: "overlay_only s s"
  unfolding overlay_only_def
  by (rule exI [of _ "next_eid s"], rule exI [of _ "randoms_used s"],
      rule exI [of _ "neuralNodes s"], rule exI [of _ "bgContainer s"]) simp

lemma overlay_only_trans: "overlay_only s s1 \<Longrightarrow> overlay_only s1 s2 \<Longrightarrow> overlay_only s s2"
  unfolding overlay_only_def by (elim exE) (simp, blast)

lemma overlay_only_fields:
  assumes "overlay_only s s'"
  shows "page s' = page s" "head_styles s' = head_styles s" "innerWidth s' = innerWidth s"
    "prefers_reduced_motion s' = prefers_reduced_motion s" "randoms s' = randoms s"
    "layout s' = layout s" "clock s' = clock s" "timers s' = timers s"
    "next_timer s' = next_timer s" "frame_requests s' = frame_requests s"
    "frame_counter s' = frame_counter s" "observed s' = observed s"
    "button_listeners s' = button_listeners s" "card_listeners s' = card_listeners s"
    "resizeTimeout s' = resizeTimeout s" "particles s' = particles s"
    "isReducedMotion s' = isReducedMotion s" "animationFrameId s' = animationFrameId s"
    "lastTime s' = lastTime s" "bgAttached s' = bgAttached s" "frames_run s' = frames_run s"
  using assms unfolding overlay_only_def by auto

lemma overlay_only_counts:
  assumes "overlay_only s s'"
  shows "shapeCount s' = shapeCount s" "particleCount s' = particleCount s" "nodeCount s' = nodeCount s"
  using overlay_only_fields(3) [OF assms] by (simp_all add: shapeCount_def particleCount_def nodeCount_def)

lemma draws_only_refl: "draws_only s s"
  unfolding draws_only_def
  by (rule exI [of _ "next_eid s"], rule exI [of _ "randoms_used s"],
      rule exI [of _ "bgContainer s"]) simp

lemma draws_only_trans: "draws_only s s1 \<Longrightarrow> draws_only s1 s2 \<Longrightarrow> draws_only s s2"
  unfolding draws_only_def by (elim exE) (simp, blast)

lemma draws_only_overlay_only:
  assumes "draws_only s s'"
  shows "overlay_only s s'"
proof -
  from assms obtain ne ru bg where
    "s' = s\<lparr>next_eid := ne, randoms_used := ru, bgContainer := bg\<rparr>"
    unfolding draws_only_def by blast
  then show ?thesis
    unfolding overlay_only_def
    by (intro exI [of _ ne] exI [of _ ru] exI [of _ "neuralNodes s"] exI [of _ bg]) simp
qed

lemma draws_only_neuralNodes: "draws_only s s' \<Longrightarrow> neuralNodes s' = neuralNodes s"
  unfolding draws_only_def by auto

lemma draws_only_bgContainer: "draws_only s (s\<lparr>bgContainer := bg\<rparr>)"
  unfolding draws_only_def
  by (rule exI [of _ "next_eid s"], rule exI [of _ "randoms_used s"], rule exI [of _ bg]) simp

lemma eid_set_style [simp]: "eid (set_style p v e) = eid e"
  by (cases e) (simp add: set_style_def)

lemma classList_set_style [simp]: "classList (set_style p v e) = classList e"
  by (cases e) (simp add: set_style_def)

lemma childNodes_set_style [simp]: "childNodes (set_style p v e) = childNodes e"
  by (cases e) (simp add: set_style_def)

lemma eid_set_className [simp]: "eid (set_className c e) = eid e"
  by (cases e) (simp add: set_className_def)

lemma classList_set_className [simp]: "classList (set_className c e) = [c]"
  by (cases e) (simp add: set_className_def)

lemma childNodes_set_className [simp]: "childNodes (set_className c e) = childNodes e"
  by (cases e) (simp add: set_className_def)

lemma overlay_is_extend_shapes:
  assumes "overlay_is s b ns ss ps" "classList x = [''hex-shape'']" "childNodes x = []"
    "eid x = next_eid s" "bgContainer s' = Some (mk_overlay b ns (ss @ [x]) ps)"
    "next_eid s' = next_eid s + 1"
  shows "overlay_is s' b ns (ss @ [x]) ps"
proof -
  have "\<forall>e\<in>set (ns @ ss @ ps). eid e < next_eid s"
    using assms(1) by (auto simp: overlay_is_def list_all_iff leaf_def)
  then have "eid x \<notin> set (map eid (ns @ ss @ ps))" using assms(4) by auto
  moreover have "leaf [''hex-shape''] (b + 3) (next_eid s') x"
    using assms by (simp add: leaf_def overlay_is_def)
  ultimately show ?thesis using assms
    by (auto simp: overlay_is_def intro: leaves_mono)
qed

lemma addShape_overlay:
  assumes "overlay_is s b ns ss ps"
  shows "\<exists>x. overlay_is (addShape (b + 3) s) b ns (ss @ [x]) ps \<and> eid x = next_eid s \<and>
     next_eid (addShape (b + 3) s) = next_eid s + 1 \<and> draws_only s (addShape (b + 3) s)"
proof -
  define x where "x =
     set_style ''animationDuration''
         [Num (8 + randoms s (Suc (Suc (Suc (randoms_used s)))) * 4), Lit ''s'']
       (set_style ''animationDelay'' [Num (randoms s (Suc (Suc (randoms_used s))) * 8), Lit ''s'']
         (set_style ''top'' [Num (randoms s (Suc (randoms_used s)) * 100), Lit ''%'']
           (set_style ''left'' [Num (randoms s (randoms_used s) * 100), Lit ''%'']
             (set_className ''hex-shape'' (Element (next_eid s) ''div'' [] [] [])))))"
  have bg: "bgContainer s = Some (mk_overlay b ns ss ps)" using assms by (simp add: overlay_is_def)
  have eq: "addShape (b + 3) s =
      s\<lparr>next_eid := Suc (next_eid s),
        randoms_used := Suc (Suc (Suc (Suc (randoms_used s)))),
        bgContainer := Some (mk_overlay b ns (ss @ [x]) ps)\<rparr>"
    by (simp add: addShape_def createElement_def random_def update_overlay_def bg
        append_shape [OF assms] x_def)
  have "overlay_is (addShape (b + 3) s) b ns (ss @ [x]) ps"
    by (rule overlay_is_extend_shapes [OF assms]) (simp_all add: x_def eq)
  moreover have "draws_only s (addShape (b + 3) s)"
    unfolding draws_only_def eq by blast
  ultimately show ?thesis by (intro exI [of _ x]) (simp add: x_def eq)
qed

lemma fold_addShape_overlay:
  assumes "overlay_is s b ns ss ps"
  shows "\<exists>xs. overlay_is (fold (\<lambda>i. addShape (b + 3)) [0..<k] s) b ns (ss @ xs) ps \<and>
     length xs = k \<and> list_all (\<lambda>x. next_eid s \<le> eid x) xs \<and>
     next_eid s \<le> next_eid (fold (\<lambda>i. addShape (b + 3)) [0..<k] s) \<and>
     draws_only s (fold (\<lambda>i. addShape (b + 3)) [0..<k] s)"
proof (induction k)
  case 0
  show ?case using assms by (intro exI [of _ "[]"]) (simp add: draws_only_refl)
next
  case (Suc k)
  let ?s = "fold (\<lambda>i. addShape (b + 3)) [0..<k] s"
  from Suc obtain xs where xs: "overlay_is ?s b ns (ss @ xs) ps" "length xs = k"
    "list_all (\<lambda>x. next_eid s \<le> eid x) xs" "next_eid s \<le> next_eid ?s" "draws_only s ?s"
    by blast
  from addShape_overlay [OF xs(1)] obtain x where
    x: "overlay_is (addShape (b + 3) ?s) b ns ((ss @ xs) @ [x]) ps" "eid x = next_eid ?s"
      "next_eid (addShape (b + 3) ?s) = next_eid ?s + 1" "draws_only ?s (addShape (b + 3) ?s)"
    by blast
  show ?case
    using xs x by (intro exI [of _ "xs @ [x]"]) (auto intro: draws_only_trans)
qed

lemma createFloatingShapes_overlay:
  assumes "overlay_is s b ns ss ps"
  shows "\<exists>s' xs. createFloatingShapes s = Some s' \<and> overlay_is s' b ns (ss @ xs) ps \<and>
     length xs = shapeCount s \<and> list_all (\<lambda>x. next_eid s \<le> eid x) xs \<and>
     next_eid s \<le> next_eid s' \<and> draws_only s s'"
proof -
  have bg: "bgContainer s = Some (mk_overlay b ns ss ps)" using assms by (simp add: overlay_is_def)
  have "createFloatingShapes s = Some (fold (\<lambda>i. addShape (b + 3)) [0..<shapeCount s] s)"
    by (simp add: createFloatingShapes_def bg query_shapes [OF assms])
  then show ?thesis using fold_addShape_overlay [OF assms, of "shapeCount s"] by auto
qed

lemma overlay_is_extend_particles:
  assumes "overlay_is s b ns ss ps" "classList x = [''particle'']" "childNodes x = []"
    "eid x = next_eid s" "bgContainer s' = Some (mk_overlay b ns ss (ps @ [x]))"
    "next_eid s' = next_eid s + 1"
  shows "overlay_is s' b ns ss (ps @ [x])"
proof -
  have "\<forall>e\<in>set (ns @ ss @ ps). eid e < next_eid s"
    using assms(1) by (auto simp: overlay_is_def list_all_iff leaf_def)
  then have "eid x \<notin> set (map eid (ns @ ss @ ps))" using assms(4) by auto
  moreover have "leaf [''particle''] (b + 3) (next_eid s') x"
    using assms by (simp add: leaf_def overlay_is_def)
  ultimately show ?thesis using assms
    by (auto simp: overlay_is_def intro: leaves_mono)
qed

lemma overlay_is_extend_network:
  assumes "overlay_is s b ns ss ps" "classList x = [c]"
    "c \<in> set [''neural-node'', ''neural-connection'']" "childNodes x = []"
    "eid x = next_eid s" "bgContainer s' = Some (mk_overlay b (ns @ [x]) ss ps)"
    "next_eid s' = next_eid s + 1"
  shows "overlay_is s' b (ns @ [x]) ss ps"
proof -
  have "\<forall>e\<in>set (ns @ ss @ ps). eid e < next_eid s"
    using assms(1) by (auto simp: overlay_is_def list_all_iff leaf_def)
  then have "eid x \<notin> set (map eid (ns @ ss @ ps))" using assms(5) by auto
  moreover have "leaf [''neural-node'', ''neural-connection''] (b + 3) (next_eid s') x"
    using assms by (auto simp: leaf_def overlay_is_def)
  ultimately show ?thesis using assms
    by (auto simp: overlay_is_def intro: leaves_mono)
qed

lemma createParticle_overlay:
  assumes "overlay_is s b ns ss ps"
  shows "\<exists>s' x. createParticle s = Some s' \<and> overlay_is s' b ns ss (ps @ [x]) \<and>
     eid x = next_eid s \<and> next_eid s' = next_eid s + 1 \<and> draws_only s s'"
proof -
  define x where "x =
     set_style ''animationDuration''
         [Num (15 + randoms s (Suc (Suc (randoms_used s))) * 10), Lit ''s'']
       (set_style ''animationDelay'' [Num (randoms s (Suc (randoms_used s)) * 15), Lit ''s'']
         (set_style ''left'' [Num (randoms s (randoms_used s) * 100), Lit ''vw'']
           (set_className ''particle'' (Element (next_eid s) ''div'' [] [] []))))"
  define s' where "s' =
      s\<lparr>next_eid := Suc (next_eid s),
        randoms_used := Suc (Suc (Suc (randoms_used s))),
        bgContainer := Some (mk_overlay b ns ss (ps @ [x]))\<rparr>"
  have bg: "bgContainer s = Some (mk_overlay b ns ss ps)" using assms by (simp add: overlay_is_def)
  have eq: "createParticle s = Some s'"
    by (simp add: createParticle_def createElement_def random_def bg append_particle x_def s'_def)
  have "overlay_is s' b ns ss (ps @ [x])"
    by (rule overlay_is_extend_particles [OF assms]) (simp_all add: x_def s'_def)
  moreover have "draws_only s s'"
    unfolding draws_only_def s'_def by blast
  ultimately show ?thesis using eq by (intro exI [of _ s'] exI [of _ x]) (simp add: x_def s'_def)
qed

lemma repeat_createParticle_overlay:
  assumes "overlay_is s b ns ss ps"
  shows "\<exists>s' xs. repeat k createParticle s = Some s' \<and> overlay_is s' b ns ss (ps @ xs) \<and>
     length xs = k \<and> next_eid s \<le> next_eid s' \<and> draws_only s s'"
  using assms
proof (induction k arbitrary: s ps)
  case 0
  then show ?case by (intro exI [of _ s] exI [of _ "[]"]) (simp add: draws_only_refl)
next
  case (Suc k)
  from createParticle_overlay [OF Suc.prems] obtain s1 x where
    x: "createParticle s = Some s1" "overlay_is s1 b ns ss (ps @ [x])"
      "next_eid s1 = next_eid s + 1" "draws_only s s1"
    by blast
  from Suc.IH [OF x(2)] obtain s' xs where
    xs: "repeat k createParticle s1 = Some s'" "overlay_is s' b ns ss ((ps @ [x]) @ xs)"
      "length xs = k" "next_eid s1 \<le> next_eid s'" "draws_only s1 s'"
    by blast
  show ?case
    using x xs by (intro exI [of _ s'] exI [of _ "x # xs"]) (auto intro: draws_only_trans)
qed

lemma initParticleSystem_overlay:
  assumes "overlay_is s b ns ss ps"
  shows "\<exists>s' xs. initParticleSystem s = Some s' \<and> overlay_is s' b ns ss (ps @ xs) \<and>
     length xs = particleCount s \<and> next_eid s \<le> next_eid s' \<and> draws_only s s'"
  unfolding initParticleSystem_def by (rule repeat_createParticle_overlay [OF assms])

lemma length_filter_one:
  "distinct (map eid ps) \<Longrightarrow> p \<in> set (map eid ps) \<Longrightarrow>
   Suc (length (filter (\<lambda>c. eid c \<noteq> p) ps)) = length ps"
proof (induction ps)
  case Nil
  then show ?case by simp
next
  case (Cons e ps)
  show ?case
  proof (cases "eid e = p")
    case True
    then have "p \<notin> set (map eid ps)" using Cons.prems by auto
    then show ?thesis using True by (simp add: filter_absent)
  next
    case False
    then show ?thesis using Cons by auto
  qed
qed

lemma onParticleAnimationEnd_overlay:
  assumes "overlay_is s b ns ss ps" "p \<in> set (map eid ps)"
  shows "\<exists>s' x. onParticleAnimationEnd p s = Some s' \<and>
     overlay_is s' b ns ss (filter (\<lambda>c. eid c \<noteq> p) ps @ [x]) \<and>
     eid x = next_eid s \<and> draws_only s s'"
proof -
  let ?s = "s\<lparr>bgContainer := map_option (remove_element p) (bgContainer s)\<rparr>"
  have bg: "bgContainer s = Some (mk_overlay b ns ss ps)" using assms by (simp add: overlay_is_def)
  have "list_all (leaf [''particle''] (b + 3) (next_eid s)) (filter (\<lambda>c. eid c \<noteq> p) ps)"
    using assms(1) by (auto simp: overlay_is_def intro: filter_leaves)
  moreover have "distinct (map eid (ns @ ss @ filter (\<lambda>c. eid c \<noteq> p) ps))"
    using assms(1) by (auto simp: overlay_is_def distinct_map_filter)
  ultimately have ov: "overlay_is ?s b ns ss (filter (\<lambda>c. eid c \<noteq> p) ps)"
    using assms by (simp add: overlay_is_def remove_particle [OF assms])
  have "draws_only s ?s"
    unfolding draws_only_def
    by (rule exI [of _ "next_eid s"], rule exI [of _ "randoms_used s"],
        rule exI [of _ "bgContainer ?s"]) simp
  with createParticle_overlay [OF ov] show ?thesis
    unfolding onParticleAnimationEnd_def by (auto intro: draws_only_trans)
qed

lemma overlay_network_children:
  assumes "overlay_is s b ns ss ps"
  shows "network_children s = ns"
proof -
  have "bgContainer s = Some (mk_overlay b ns ss ps)" using assms by (simp add: overlay_is_def)
  then show ?thesis by (simp add: network_children_def query_network [OF assms])
qed

lemma connect_far:
  "\<not> distance a c < 30 \<Longrightarrow> connect k a c s = s"
  by (simp add: connect_def)

lemma connect_close_overlay:
  assumes "overlay_is s b ns ss ps" "distance a c < 30"
  shows "\<exists>x. overlay_is (connect (Suc (Suc b)) a c s) b (ns @ [x]) ss ps \<and>
     classList x = [''neural-connection''] \<and> geometry x = line a c \<and>
     eid x = next_eid s \<and> neuralNodes (connect (Suc (Suc b)) a c s) = neuralNodes s \<and>
     overlay_only s (connect (Suc (Suc b)) a c s)"
proof -
  define x where "x =
     set_style ''animationDelay'' [Num (fmul (randoms s (randoms_used s)) 4), Lit ''s'']
       (set_style ''transform''
          [Lit ''rotate('',
           Num (Math_atan2 (fsub (node_y c) (node_y a)) (fsub (node_x c) (node_x a))),
           Lit ''rad)'']
         (set_style ''width'' [Num (distance a c), Lit ''%'']
           (set_style ''top'' [Num (node_y a), Lit ''%'']
             (set_style ''left'' [Num (node_x a), Lit ''%'']
               (set_className ''neural-connection'' (Element (next_eid s) ''div'' [] [] []))))))"
  define s' where "s' =
      s\<lparr>next_eid := Suc (next_eid s), randoms_used := Suc (randoms_used s),
        neuralNodes := neuralNodes s,
        bgContainer := Some (mk_overlay b (ns @ [x]) ss ps)\<rparr>"
  have bg: "bgContainer s = Some (mk_overlay b ns ss ps)" using assms by (simp add: overlay_is_def)
  have eq: "connect (Suc (Suc b)) a c s = s'"
    using assms(2)
    by (simp add: connect_def createElement_def random_def update_overlay_def bg
        append_network [OF assms(1)] x_def s'_def)
  have "overlay_is s' b (ns @ [x]) ss ps"
    by (rule overlay_is_extend_network [OF assms(1), of x "''neural-connection''"])
      (simp_all add: x_def s'_def)
  moreover have "overlay_only s s'"
    unfolding overlay_only_def s'_def by blast
  moreover have "geometry x = line a c"
    by (simp add: geometry_def line_def x_def get_set_style)
  ultimately show ?thesis
    unfolding eq by (intro exI [of _ x]) (simp add: x_def s'_def)
qed

lemma fold_connect_overlay:
  assumes "overlay_is s b ns ss ps"
  shows "\<exists>cs. overlay_is (fold (connect (Suc (Suc b)) a) others s) b (ns @ cs) ss ps \<and>
     list_all (\<lambda>x. classList x = [''neural-connection'']) cs \<and>
     map geometry cs = map (line a) (filter (\<lambda>c. distance a c < 30) others) \<and>
     neuralNodes (fold (connect (Suc (Suc b)) a) others s) = neuralNodes s \<and>
     next_eid s \<le> next_eid (fold (connect (Suc (Suc b)) a) others s) \<and>
     list_all (\<lambda>x. next_eid s \<le> eid x) cs \<and>
     overlay_only s (fold (connect (Suc (Suc b)) a) others s)"
  using assms
proof (induction others arbitrary: s ns)
  case Nil
  then show ?case by (intro exI [of _ "[]"]) (simp add: overlay_only_refl)
next
  case (Cons c others)
  show ?case
  proof (cases "distance a c < 30")
    case False
    with Cons.IH [OF Cons.prems] show ?thesis by (simp add: connect_far)
  next
    case True
    let ?s = "connect (Suc (Suc b)) a c s"
    from connect_close_overlay [OF Cons.prems True] obtain x where
      x: "overlay_is ?s b (ns @ [x]) ss ps" "classList x = [''neural-connection'']"
        "geometry x = line a c" "eid x = next_eid s" "neuralNodes ?s = neuralNodes s"
        "overlay_only s ?s"
      by blast
    have nx: "next_eid s \<le> next_eid ?s"
      using x(1,4) by (auto simp: overlay_is_def leaf_def)
    from Cons.IH [OF x(1)] obtain cs where
      cs: "overlay_is (fold (connect (Suc (Suc b)) a) others ?s) b ((ns @ [x]) @ cs) ss ps"
        "list_all (\<lambda>x. classList x = [''neural-connection'']) cs"
        "map geometry cs = map (line a) (filter (\<lambda>c. distance a c < 30) others)"
        "neuralNodes (fold (connect (Suc (Suc b)) a) others ?s) = neuralNodes ?s"
        "next_eid ?s \<le> next_eid (fold (connect (Suc (Suc b)) a) others ?s)"
        "list_all (\<lambda>x. next_eid ?s \<le> eid x) cs"
        "overlay_only ?s (fold (connect (Suc (Suc b)) a) others ?s)"
      by blast
    have "list_all (\<lambda>x. next_eid s \<le> eid x) cs"
      using cs(6) nx by (auto simp: list_all_iff)
    then show ?thesis
      using x cs True nx
      by (intro exI [of _ "x # cs"]) (auto intro: overlay_only_trans)
  qed
qed

lemma connections_loop_overlay:
  assumes "overlay_is s b ns ss ps" "neuralNodes s = nn"
  shows "\<exists>cs. overlay_is
          (fold (\<lambda>(index, node) s'.
                   fold (connect (Suc (Suc b)) node) (drop (index + 1) (neuralNodes s')) s')
                xs s) b (ns @ cs) ss ps \<and>
     list_all (\<lambda>x. classList x = [''neural-connection'']) cs \<and>
     map geometry cs =
       concat (map (\<lambda>(i, a). map (line a) (filter (\<lambda>c. distance a c < 30) (drop (Suc i) nn))) xs) \<and>
     neuralNodes
       (fold (\<lambda>(index, node) s'.
                fold (connect (Suc (Suc b)) node) (drop (index + 1) (neuralNodes s')) s')
             xs s) = nn \<and>
     list_all (\<lambda>x. next_eid s \<le> eid x) cs \<and>
     overlay_only s
       (fold (\<lambda>(index, node) s'.
                fold (connect (Suc (Suc b)) node) (drop (index + 1) (neuralNodes s')) s')
             xs s)"
  using assms
proof (induction xs arbitrary: s ns)
  case Nil
  then show ?case by (intro exI [of _ "[]"]) (simp add: overlay_only_refl)
next
  case (Cons ia xs)
  obtain i a where ia: "ia = (i, a)" by (cases ia)
  let ?F = "\<lambda>(index, node) s'.
              fold (connect (Suc (Suc b)) node) (drop (index + 1) (neuralNodes s')) s'"
  let ?s = "fold (connect (Suc (Suc b)) a) (drop (Suc i) nn) s"
  from fold_connect_overlay [OF Cons.prems(1), of a "drop (Suc i) nn"] obtain cs1 where
    c1: "overlay_is ?s b (ns @ cs1) ss ps"
      "list_all (\<lambda>x. classList x = [''neural-connection'']) cs1"
      "map geometry cs1 = map (line a) (filter (\<lambda>c. distance a c < 30) (drop (Suc i) nn))"
      "neuralNodes ?s = neuralNodes s" "next_eid s \<le> next_eid ?s"
      "list_all (\<lambda>x. next_eid s \<le> eid x) cs1" "overlay_only s ?s"
    by blast
  have nn: "neuralNodes ?s = nn" using c1(4) Cons.prems(2) by simp
  from Cons.IH [OF c1(1) nn] obtain cs2 where
    c2: "overlay_is (fold ?F xs ?s) b ((ns @ cs1) @ cs2) ss ps"
      "list_all (\<lambda>x. classList x = [''neural-connection'']) cs2"
      "map geometry cs2 =
         concat (map (\<lambda>(i, a). map (line a) (filter (\<lambda>c. distance a c < 30) (drop (Suc i) nn))) xs)"
      "neuralNodes (fold ?F xs ?s) = nn"
      "list_all (\<lambda>x. next_eid ?s \<le> eid x) cs2" "overlay_only ?s (fold ?F xs ?s)"
    by blast
  have fresh: "list_all (\<lambda>x. next_eid s \<le> eid x) cs2"
    using c2(5) c1(5) by (auto simp: list_all_iff)
  have step: "fold ?F (ia # xs) s = fold ?F xs ?s"
    using Cons.prems(2) by (simp add: ia)
  show ?case
    unfolding step using c1 c2 fresh
    by (intro exI [of _ "cs1 @ cs2"]) (auto simp: ia intro: overlay_only_trans)
qed

lemma map_filter_concat:
  "map f (filter P xs) = concat (map (\<lambda>x. if P x then [f x] else []) xs)"
  by (induction xs) auto

lemma drop_as_nths: "drop k xs = map ((!) xs) [k..<length xs]"
  by (rule nth_equalityI) simp_all

lemma enumerate_as_nths: "enumerate 0 xs = map (\<lambda>i. (i, xs ! i)) [0..<length xs]"
  by (rule nth_equalityI) (simp_all add: nth_enumerate_eq)

lemma close_pairs_by_index:
  "concat (map (\<lambda>(i, a). map (line a) (filter (\<lambda>c. distance a c < 30) (drop (Suc i) nn)))
             (enumerate 0 nn)) =
   [line (nn ! i) (nn ! j). i \<leftarrow> [0..<length nn], j \<leftarrow> [Suc i..<length nn],
      distance (nn ! i) (nn ! j) < 30]"
  by (simp add: enumerate_as_nths map_filter_concat drop_as_nths [of _ nn] comp_def)

lemma createNeuralConnections_overlay:
  assumes "overlay_is s b ns ss ps"
  shows "\<exists>cs. overlay_is (createNeuralConnections (Suc (Suc b)) s) b (ns @ cs) ss ps \<and>
     list_all (\<lambda>x. classList x = [''neural-connection'']) cs \<and>
     map geometry cs =
       [line (neuralNodes s ! i) (neuralNodes s ! j).
          i \<leftarrow> [0..<length (neuralNodes s)], j \<leftarrow> [Suc i..<length (neuralNodes s)],
          distance (neuralNodes s ! i) (neuralNodes s ! j) < 30] \<and>
     neuralNodes (createNeuralConnections (Suc (Suc b)) s) = neuralNodes s \<and>
     list_all (\<lambda>x. next_eid s \<le> eid x) cs \<and>
     overlay_only s (createNeuralConnections (Suc (Suc b)) s)"
  using connections_loop_overlay [OF assms refl, of "enumerate 0 (neuralNodes s)"]
  unfolding createNeuralConnections_def close_pairs_by_index by simp

lemma addNode_overlay:
  assumes "overlay_is s b ns ss ps"
  shows "\<exists>x. overlay_is (addNode (Suc (Suc b)) s) b (ns @ [x]) ss ps \<and>
     classList x = [''neural-node''] \<and> eid x = next_eid s \<and>
     length (neuralNodes (addNode (Suc (Suc b)) s)) = Suc (length (neuralNodes s)) \<and>
     next_eid (addNode (Suc (Suc b)) s) = next_eid s + 1 \<and>
     overlay_only s (addNode (Suc (Suc b)) s)"
proof -
  define x where "x =
     set_style ''animationDelay''
         [Num (fmul (randoms s (Suc (Suc (randoms_used s)))) 3), Lit ''s'']
       (set_style ''top'' [Num (fmul (randoms s (Suc (randoms_used s))) 100), Lit ''%'']
         (set_style ''left'' [Num (fmul (randoms s (randoms_used s)) 100), Lit ''%'']
           (set_className ''neural-node'' (Element (next_eid s) ''div'' [] [] []))))"
  define s' where "s' =
      s\<lparr>next_eid := Suc (next_eid s),
        randoms_used := Suc (Suc (Suc (randoms_used s))),
        neuralNodes := neuralNodes s @
          [\<lparr>node_element = next_eid s, node_x = fmul (randoms s (randoms_used s)) 100,
            node_y = fmul (randoms s (Suc (randoms_used s))) 100\<rparr>],
        bgContainer := Some (mk_overlay b (ns @ [x]) ss ps)\<rparr>"
  have bg: "bgContainer s = Some (mk_overlay b ns ss ps)" using assms by (simp add: overlay_is_def)
  have eq: "addNode (Suc (Suc b)) s = s'"
    by (simp add: addNode_def createElement_def random_def update_overlay_def bg
        append_network [OF assms] x_def s'_def Let_def)
  have "overlay_is s' b (ns @ [x]) ss ps"
    by (rule overlay_is_extend_network [OF assms, of x "''neural-node''"])
      (simp_all add: x_def s'_def)
  moreover have "overlay_only s s'"
    unfolding overlay_only_def s'_def by blast
  ultimately show ?thesis
    unfolding eq by (intro exI [of _ x]) (simp add: x_def s'_def)
qed

lemma fold_addNode_overlay:
  assumes "overlay_is s b ns ss ps"
  shows "\<exists>xs. overlay_is (fold (\<lambda>i. addNode (Suc (Suc b))) [0..<k] s) b (ns @ xs) ss ps \<and>
     length xs = k \<and> list_all (\<lambda>x. classList x = [''neural-node'']) xs \<and>
     list_all (\<lambda>x. next_eid s \<le> eid x) xs \<and>
     length (neuralNodes (fold (\<lambda>i. addNode (Suc (Suc b))) [0..<k] s)) =
       length (neuralNodes s) + k \<and>
     next_eid s \<le> next_eid (fold (\<lambda>i. addNode (Suc (Suc b))) [0..<k] s) \<and>
     overlay_only s (fold (\<lambda>i. addNode (Suc (Suc b))) [0..<k] s)"
proof (induction k)
  case 0
  show ?case using assms by (intro exI [of _ "[]"]) (simp add: overlay_only_refl)
next
  case (Suc k)
  let ?s = "fold (\<lambda>i. addNode (Suc (Suc b))) [0..<k] s"
  from Suc obtain xs where xs: "overlay_is ?s b (ns @ xs) ss ps" "length xs = k"
    "list_all (\<lambda>x. classList x = [''neural-node'']) xs"
    "list_all (\<lambda>x. next_eid s \<le> eid x) xs"
    "length (neuralNodes ?s) = length (neuralNodes s) + k"
    "next_eid s \<le> next_eid ?s" "overlay_only s ?s"
    by blast
  from addNode_overlay [OF xs(1)] obtain x where
    x: "overlay_is (addNode (Suc (Suc b)) ?s) b ((ns @ xs) @ [x]) ss ps"
      "classList x = [''neural-node'']" "eid x = next_eid ?s"
      "length (neuralNodes (addNode (Suc (Suc b)) ?s)) = Suc (length (neuralNodes ?s))"
      "next_eid (addNode (Suc (Suc b)) ?s) = next_eid ?s + 1"
      "overlay_only ?s (addNode (Suc (Suc b)) ?s)"
    by blast
  show ?case
    using xs x by (intro exI [of _ "xs @ [x]"]) (auto intro: overlay_only_trans)
qed

lemma createNeuralNetwork_overlay:
  assumes "overlay_is s b ns ss ps"
  shows "\<exists>s' xs cs. createNeuralNetwork s = Some s' \<and> overlay_is s' b (ns @ xs @ cs) ss ps \<and>
     length xs = nodeCount s \<and> list_all (\<lambda>x. classList x = [''neural-node'']) xs \<and>
     list_all (\<lambda>x. classList x = [''neural-connection'']) cs \<and>
     list_all (\<lambda>x. next_eid s \<le> eid x) (xs @ cs) \<and>
     length (neuralNodes s') = length (neuralNodes s) + nodeCount s \<and>
     map geometry cs =
       [line (neuralNodes s' ! i) (neuralNodes s' ! j).
          i \<leftarrow> [0..<length (neuralNodes s')], j \<leftarrow> [Suc i..<length (neuralNodes s')],
          distance (neuralNodes s' ! i) (neuralNodes s' ! j) < 30] \<and>
     overlay_only s s'"
proof -
  let ?s1 = "fold (\<lambda>i. addNode (Suc (Suc b))) [0..<nodeCount s] s"
  have bg: "bgContainer s = Some (mk_overlay b ns ss ps)" using assms by (simp add: overlay_is_def)
  have eq: "createNeuralNetwork s = Some (createNeuralConnections (Suc (Suc b)) ?s1)"
    by (simp add: createNeuralNetwork_def bg query_network [OF assms])
  from fold_addNode_overlay [OF assms, of "nodeCount s"] obtain xs where
    xs: "overlay_is ?s1 b (ns @ xs) ss ps" "length xs = nodeCount s"
      "list_all (\<lambda>x. classList x = [''neural-node'']) xs"
      "list_all (\<lambda>x. next_eid s \<le> eid x) xs"
      "length (neuralNodes ?s1) = length (neuralNodes s) + nodeCount s"
      "next_eid s \<le> next_eid ?s1" "overlay_only s ?s1"
    by blast
  let ?s2 = "createNeuralConnections (Suc (Suc b)) ?s1"
  from createNeuralConnections_overlay [OF xs(1)] obtain cs where
    cs: "overlay_is ?s2 b ((ns @ xs) @ cs) ss ps"
      "list_all (\<lambda>x. classList x = [''neural-connection'']) cs"
      "map geometry cs =
         [line (neuralNodes ?s1 ! i) (neuralNodes ?s1 ! j).
            i \<leftarrow> [0..<length (neuralNodes ?s1)], j \<leftarrow> [Suc i..<length (neuralNodes ?s1)],
            distance (neuralNodes ?s1 ! i) (neuralNodes ?s1 ! j) < 30]"
      "neuralNodes ?s2 = neuralNodes ?s1"
      "list_all (\<lambda>x. next_eid ?s1 \<le> eid x) cs" "overlay_only ?s1 ?s2"
    by blast
  have fresh: "list_all (\<lambda>x. next_eid s \<le> eid x) cs"
    using cs(5) xs(6) by (auto simp: list_all_iff)
  have ov: "overlay_only s ?s2" using xs(7) cs(6) by (rule overlay_only_trans)
  have g: "map geometry cs =
       [line (neuralNodes ?s2 ! i) (neuralNodes ?s2 ! j).
          i \<leftarrow> [0..<length (neuralNodes ?s2)], j \<leftarrow> [Suc i..<length (neuralNodes ?s2)],
          distance (neuralNodes ?s2 ! i) (neuralNodes ?s2 ! j) < 30]"
    unfolding cs(4) by (rule cs(3))
  have len: "length (neuralNodes ?s2) = length (neuralNodes s) + nodeCount s"
    unfolding cs(4) by (rule xs(5))
  have ovis: "overlay_is ?s2 b (ns @ xs @ cs) ss ps" using cs(1) by simp
  have fr: "list_all (\<lambda>x. next_eid s \<le> eid x) (xs @ cs)" using xs(4) fresh by simp
  show ?thesis
    unfolding eq
    by (intro exI [of _ ?s2] exI [of _ xs] exI [of _ cs] conjI refl ovis xs(2) xs(3) cs(2) fr len g ov)
qed

lemma createFuturisticBackground_overlay:
  assumes "document_body s = Some body"
  shows "\<exists>s' xs. createFuturisticBackground s = Some s' \<and> overlay_is s' (next_eid s) [] xs [] \<and>
     length xs = shapeCount s \<and> draws_only (s\<lparr>bgAttached := True\<rparr>) s'"
proof -
  let ?b = "next_eid s"
  let ?s0 = "s\<lparr>next_eid := ?b + 4, bgContainer := Some (mk_overlay ?b [] [] []),
                bgAttached := True\<rparr>"
  have eq: "createFuturisticBackground s = createFloatingShapes ?s0"
    by (simp add: createFuturisticBackground_def assms mk_overlay_def Let_def)
  have ov: "overlay_is ?s0 ?b [] [] []" by (simp add: overlay_is_def)
  from createFloatingShapes_overlay [OF ov] obtain s' xs where
    r: "createFloatingShapes ?s0 = Some s'" "overlay_is s' ?b [] ([] @ xs) []"
      "length xs = shapeCount ?s0" "draws_only ?s0 s'"
    by blast
  have "draws_only (s\<lparr>bgAttached := True\<rparr>) ?s0"
    unfolding draws_only_def
    by (rule exI [of _ "?b + 4"], rule exI [of _ "randoms_used s"],
        rule exI [of _ "Some (mk_overlay ?b [] [] [])"]) simp
  then have "draws_only (s\<lparr>bgAttached := True\<rparr>) s'" using r(4) by (rule draws_only_trans)
  moreover have "shapeCount ?s0 = shapeCount s" by (simp add: shapeCount_def)
  ultimately show ?thesis using r unfolding eq by auto
qed

lemma fresh_mono:
  "list_all (\<lambda>x. m \<le> eid x) xs \<Longrightarrow> n \<le> m \<Longrightarrow> list_all (\<lambda>x. n \<le> eid x) xs"
  by (induction xs) auto

lemma overlay_only_bgContainer: "overlay_only s (s\<lparr>bgContainer := bg\<rparr>)"
  unfolding overlay_only_def
  by (rule exI [of _ "next_eid s"], rule exI [of _ "randoms_used s"],
      rule exI [of _ "neuralNodes s"], rule exI [of _ bg]) simp

lemma overlay_only_neuralNodes: "overlay_only s (s\<lparr>neuralNodes := nn\<rparr>)"
  unfolding overlay_only_def
  by (rule exI [of _ "next_eid s"], rule exI [of _ "randoms_used s"],
      rule exI [of _ nn], rule exI [of _ "bgContainer s"]) simp

lemma clear_shapes_overlay:
  assumes "overlay_is s b ns ss ps"
  shows "overlay_is (update_overlay (b + 3) clear_children s) b ns [] ps"
    "overlay_only s (update_overlay (b + 3) clear_children s)"
proof -
  have bg: "bgContainer s = Some (mk_overlay b ns ss ps)" using assms by (simp add: overlay_is_def)
  show "overlay_is (update_overlay (b + 3) clear_children s) b ns [] ps"
    using assms by (simp add: update_overlay_def bg clear_shapes [OF assms]) (auto simp: overlay_is_def)
  show "overlay_only s (update_overlay (b + 3) clear_children s)"
    unfolding update_overlay_def by (rule overlay_only_bgContainer)
qed

lemma clear_network_overlay:
  assumes "overlay_is s b ns ss ps"
  shows "overlay_is ((update_overlay (Suc (Suc b)) clear_children s)\<lparr>neuralNodes := []\<rparr>) b [] ss ps"
    "overlay_only s ((update_overlay (Suc (Suc b)) clear_children s)\<lparr>neuralNodes := []\<rparr>)"
    "neuralNodes ((update_overlay (Suc (Suc b)) clear_children s)\<lparr>neuralNodes := []\<rparr>) = []"
proof -
  have bg: "bgContainer s = Some (mk_overlay b ns ss ps)" using assms by (simp add: overlay_is_def)
  show "overlay_is ((update_overlay (Suc (Suc b)) clear_children s)\<lparr>neuralNodes := []\<rparr>) b [] ss ps"
    using assms by (simp add: update_overlay_def bg clear_network [OF assms]) (simp add: overlay_is_def)
  have "overlay_only s (update_overlay (Suc (Suc b)) clear_children s)"
    unfolding update_overlay_def by (rule overlay_only_bgContainer)
  then show "overlay_only s ((update_overlay (Suc (Suc b)) clear_children s)\<lparr>neuralNodes := []\<rparr>)"
    using overlay_only_neuralNodes by (rule overlay_only_trans)
  show "neuralNodes ((update_overlay (Suc (Suc b)) clear_children s)\<lparr>neuralNodes := []\<rparr>) = []"
    by simp
qed

lemma handleResize_overlay:
  assumes "overlay_is s b ns ss ps"
  shows "\<exists>s' xs ys cs. handleResize s = Some s' \<and> overlay_is s' b (ys @ cs) xs ps \<and>
     length xs = shapeCount s \<and> length ys = nodeCount s \<and>
     list_all (\<lambda>x. classList x = [''neural-node'']) ys \<and>
     list_all (\<lambda>x. classList x = [''neural-connection'']) cs \<and>
     list_all (\<lambda>x. next_eid s \<le> eid x) (xs @ ys @ cs) \<and>
     length (neuralNodes s') = nodeCount s \<and>
     map geometry cs =
       [line (neuralNodes s' ! i) (neuralNodes s' ! j).
          i \<leftarrow> [0..<length (neuralNodes s')], j \<leftarrow> [Suc i..<length (neuralNodes s')],
          distance (neuralNodes s' ! i) (neuralNodes s' ! j) < 30] \<and>
     overlay_only s s'"
proof -
  let ?s0 = "update_overlay (b + 3) clear_children s"
  have bg: "bgContainer s = Some (mk_overlay b ns ss ps)" using assms by (simp add: overlay_is_def)
  note c0 = clear_shapes_overlay [OF assms]
  from createFloatingShapes_overlay [OF c0(1)] obtain s1 xs where
    s1: "createFloatingShapes ?s0 = Some s1" "overlay_is s1 b ns ([] @ xs) ps"
      "length xs = shapeCount ?s0" "list_all (\<lambda>x. next_eid ?s0 \<le> eid x) xs"
      "next_eid ?s0 \<le> next_eid s1" "draws_only ?s0 s1"
    by blast
  have ov1: "overlay_is s1 b ns xs ps" using s1(2) by simp
  have bg1: "bgContainer s1 = Some (mk_overlay b ns xs ps)" using ov1 by (simp add: overlay_is_def)
  let ?s2 = "(update_overlay (Suc (Suc b)) clear_children s1)\<lparr>neuralNodes := []\<rparr>"
  note c2 = clear_network_overlay [OF ov1]
  from createNeuralNetwork_overlay [OF c2(1)] obtain s' ys cs where
    s': "createNeuralNetwork ?s2 = Some s'" "overlay_is s' b ([] @ ys @ cs) xs ps"
      "length ys = nodeCount ?s2" "list_all (\<lambda>x. classList x = [''neural-node'']) ys"
      "list_all (\<lambda>x. classList x = [''neural-connection'']) cs"
      "list_all (\<lambda>x. next_eid ?s2 \<le> eid x) (ys @ cs)"
      "length (neuralNodes s') = length (neuralNodes ?s2) + nodeCount ?s2"
      "map geometry cs =
         [line (neuralNodes s' ! i) (neuralNodes s' ! j).
            i \<leftarrow> [0..<length (neuralNodes s')], j \<leftarrow> [Suc i..<length (neuralNodes s')],
            distance (neuralNodes s' ! i) (neuralNodes s' ! j) < 30]"
      "overlay_only ?s2 s'"
    by blast
  have o01: "overlay_only s s1"
    using c0(2) draws_only_overlay_only [OF s1(6)] by (rule overlay_only_trans)
  have o02: "overlay_only s ?s2" using o01 c2(2) by (rule overlay_only_trans)
  have ov: "overlay_only s s'" using o02 s'(9) by (rule overlay_only_trans)
  have eq: "handleResize s = Some s'"
    by (simp add: handleResize_def bg query_shapes [OF assms] s1(1) bg1 query_network [OF ov1] s'(1))
  have n0: "next_eid ?s0 = next_eid s" by (simp add: update_overlay_def)
  have n2: "next_eid ?s2 = next_eid s1" by (simp add: update_overlay_def)
  have fr: "list_all (\<lambda>x. next_eid s \<le> eid x) (xs @ ys @ cs)"
  proof -
    have a: "list_all (\<lambda>x. next_eid s \<le> eid x) xs" using s1(4) unfolding n0 .
    have b: "next_eid s \<le> next_eid s1" using s1(5) unfolding n0 .
    have c: "list_all (\<lambda>x. next_eid s1 \<le> eid x) (ys @ cs)" using s'(6) unfolding n2 .
    show ?thesis using a fresh_mono [OF c b] by simp
  qed
  have l1: "length xs = shapeCount s" using s1(3) overlay_only_counts(1) [OF c0(2)] by simp
  have l2: "length ys = nodeCount s" using s'(3) overlay_only_counts(3) [OF o02] by simp
  have l3: "length (neuralNodes s') = nodeCount s"
    using s'(7) overlay_only_counts(3) [OF o02] by simp
  have ovis: "overlay_is s' b (ys @ cs) xs ps" using s'(2) by simp
  show ?thesis
    by (intro exI [of _ s'] exI [of _ xs] exI [of _ ys] exI [of _ cs] conjI eq ovis l1 l2
        s'(4) s'(5) fr l3 s'(8) ov)
qed

section \<open>The steps keep the invariant\<close>

lemma page_side_refl: "page_side s s"
  by (simp add: page_side_def)

lemma page_side_trans: "page_side s s1 \<Longrightarrow> page_side s1 s2 \<Longrightarrow> page_side s s2"
  by (auto simp: page_side_def)

lemma page_side_fold:
  assumes "\<And>x s. page_side s (f x s)"
  shows "page_side s (fold f xs s)"
proof (induction xs arbitrary: s)
  case Nil
  show ?case by (simp add: page_side_refl)
next
  case (Cons x xs)
  show ?case using assms [of s x] Cons [of "f x s"] by (auto intro: page_side_trans)
qed

lemma page_side_update_page: "page_side s (update_page i f s)"
  by (simp add: page_side_def update_page_def)

lemma page_side_setTimeout: "page_side s (snd (setTimeout cb d s))"
  by (simp add: page_side_def setTimeout_def)

lemma page_side_onEntry: "page_side s (onEntry e s)"
proof -
  have "page_side s
     (fold (\<lambda>(index, sibling) s'. snd (setTimeout (AddInView (eid sibling)) (index * 200) s')) xs s)"
    for xs
    by (rule page_side_fold) (auto simp: page_side_setTimeout)
  then show ?thesis
    by (auto simp: onEntry_def page_side_refl page_side_update_page split: option.splits)
qed

lemma page_side_onIntersection: "page_side s (onIntersection es s)"
  unfolding onIntersection_def by (rule page_side_fold) (rule page_side_onEntry)

lemma page_side_onButtonHover: "page_side s (onButtonHover ev s)"
  by (simp add: onButtonHover_def createRippleEffect_def createElement_def page_side_def
      update_page_def setTimeout_def Let_def)

lemma page_side_onButtonLeave: "page_side s (onButtonLeave ev s)"
  by (simp add: onButtonLeave_def page_side_update_page)

lemma page_side_onResize:
  "bgContainer (onResize s) = bgContainer s" "bgAttached (onResize s) = bgAttached s"
  "next_eid (onResize s) = next_eid s" "neuralNodes (onResize s) = neuralNodes s"
  "frame_requests (onResize s) = frame_requests s" "frame_counter (onResize s) = frame_counter s"
  "animationFrameId (onResize s) = animationFrameId s" "frames_run (onResize s) = frames_run s"
  "head_styles (onResize s) = head_styles s" "innerWidth (onResize s) = innerWidth s"
  by (simp_all add: onResize_def clearTimeout_def setTimeout_def split: option.splits)

lemma overlay_is_page_side:
  assumes "overlay_is s b ns ss ps" "page_side s s'"
  shows "overlay_is s' b ns ss ps"
  using assms by (auto simp: overlay_is_def page_side_def intro: leaves_mono)

lemma loop_inv_cong:
  "loop_inv s \<Longrightarrow> frame_requests s' = frame_requests s \<Longrightarrow>
   animationFrameId s' = animationFrameId s \<Longrightarrow> loop_inv s'"
  by (simp add: loop_inv_def)

lemma loop_inv_page_side: "loop_inv s \<Longrightarrow> page_side s s' \<Longrightarrow> loop_inv s'"
  by (auto simp: page_side_def intro: loop_inv_cong)

lemma loop_inv_overlay_only: "loop_inv s \<Longrightarrow> overlay_only s s' \<Longrightarrow> loop_inv s'"
  using overlay_only_fields(10,18) by (auto intro: loop_inv_cong)

lemma animate_eq:
  "animate t s =
     s\<lparr>frames_run := Suc (frames_run s),
       lastTime := (if 16 \<le> fsub t (lastTime s) then t else lastTime s),
       frame_counter := Suc (frame_counter s),
       frame_requests := frame_requests s @ [Suc (frame_counter s)],
       animationFrameId := Some (Suc (frame_counter s))\<rparr>"
  by (cases "16 \<le> fsub t (lastTime s)")
    (simp_all add: animate_def requestAnimationFrame_def updateAnimations_def Let_def)

lemma run_frame_idle: "frame_requests s = [] \<Longrightarrow> run_frame t s = s"
  by (simp add: run_frame_def)

lemma run_frame_one:
  "frame_requests s = [h] \<Longrightarrow> run_frame t s = animate t (s\<lparr>frame_requests := []\<rparr>)"
  by (simp add: run_frame_def)

lemma run_frame_loop:
  assumes "loop_inv s"
  shows "loop_inv (run_frame t s)" "bgContainer (run_frame t s) = bgContainer s"
    "next_eid (run_frame t s) = next_eid s" "bgAttached (run_frame t s) = bgAttached s"
proof -
  consider "frame_requests s = []" | h where "frame_requests s = [h]"
    using assms by (auto simp: loop_inv_def)
  then have "loop_inv (run_frame t s) \<and> bgContainer (run_frame t s) = bgContainer s \<and>
    next_eid (run_frame t s) = next_eid s \<and> bgAttached (run_frame t s) = bgAttached s"
  proof cases
    case 1
    then show ?thesis using assms by (simp add: run_frame_idle)
  next
    case 2
    then show ?thesis by (simp add: run_frame_one animate_eq loop_inv_def)
  qed
  then show "loop_inv (run_frame t s)" "bgContainer (run_frame t s) = bgContainer s"
    "next_eid (run_frame t s) = next_eid s" "bgAttached (run_frame t s) = bgAttached s"
    by simp_all
qed

lemma destroy_effect:
  assumes "loop_inv s"
  shows "frame_requests (destroy s) = []" "bgContainer (destroy s) = bgContainer s"
    "next_eid (destroy s) = next_eid s" "frames_run (destroy s) = frames_run s"
    "bgContainer s \<noteq> None \<Longrightarrow> \<not> bgAttached (destroy s)"
    "\<not> bgAttached s \<Longrightarrow> \<not> bgAttached (destroy s)"
  using assms
  by (auto simp: destroy_def cancelAnimationFrame_def loop_inv_def Let_def split: option.splits)

lemma quiet_page_side: "page_side s s' \<Longrightarrow> quiet s s'"
  by (simp add: quiet_def page_side_def)

lemma quiet_overlay_only: "overlay_only s s' \<Longrightarrow> quiet s s'"
  using overlay_only_fields(10,20,21) by (simp add: quiet_def)

lemma inv_page_side: "inv n s \<Longrightarrow> page_side s s' \<Longrightarrow> inv n s'"
  unfolding inv_def by (blast intro: overlay_is_page_side loop_inv_page_side)

lemma rendered_particles_overlay:
  assumes "overlay_is s b ns ss ps"
  shows "rendered_particles s = (if bgAttached s then ps else [])"
proof -
  have bg: "bgContainer s = Some (mk_overlay b ns ss ps)" using assms by (simp add: overlay_is_def)
  have eq: "is_particle = matches [ByClass ''particle'']"
    by (rule ext) (simp add: is_particle_def matches_def)
  have "list_all (leaf [''particle''] (b + 3) (next_eid s)) ps"
    using assms by (simp add: overlay_is_def)
  then have "filter is_particle ps = ps"
    unfolding eq by (rule filter_leaves_all)
  then show ?thesis
    by (simp add: rendered_particles_def bg mk_overlay_def is_particle_def contains_def)
qed

lemma step_AnimationEnd:
  assumes "inv n s"
  shows "\<exists>s'. step (AnimationEnd p) s = Some s' \<and> inv n s' \<and> quiet s s'"
proof -
  from assms obtain b ns ss ps where
    ov: "overlay_is s b ns ss ps" and len: "length ps = n" and lp: "loop_inv s"
    unfolding inv_def by blast
  show ?thesis
  proof (cases "p \<in> set (map eid (rendered_particles s))")
    case False
    then show ?thesis using assms by (simp add: quiet_def)
  next
    case True
    then have p: "p \<in> set (map eid ps)"
      by (cases "bgAttached s") (simp_all add: rendered_particles_overlay [OF ov])
    from onParticleAnimationEnd_overlay [OF ov p] obtain s' x where
      r: "onParticleAnimationEnd p s = Some s'"
        "overlay_is s' b ns ss (filter (\<lambda>c. eid c \<noteq> p) ps @ [x])" "draws_only s s'"
      by blast
    note r3 = draws_only_overlay_only [OF r(3)]
    have "distinct (map eid ps)" using ov by (simp add: overlay_is_def)
    then have "length (filter (\<lambda>c. eid c \<noteq> p) ps @ [x]) = n"
      using length_filter_one [OF _ p] len by simp
    then have "inv n s'"
      unfolding inv_def using r(2) loop_inv_overlay_only [OF lp r3] by blast
    then show ?thesis using True r(1) quiet_overlay_only [OF r3] by simp
  qed
qed

lemma step_Elapse:
  assumes "inv n s"
  shows "\<exists>s'. step (Elapse d) s = Some s' \<and> inv n s' \<and> quiet s s'"
proof -
  have "page_side s (s\<lparr>clock := clock s + d\<rparr>)" by (simp add: page_side_def)
  then show ?thesis using assms by (auto intro: inv_page_side quiet_page_side)
qed

lemma run_callback_inv:
  assumes "inv n s"
  shows "\<exists>s'. run_callback cb s = Some s' \<and> inv n s' \<and> quiet s s'"
proof (cases cb)
  case (AddInView i)
  then show ?thesis
    using assms by (auto intro: inv_page_side quiet_page_side page_side_update_page)
next
  case (RemoveRipple i)
  have "page_side s (s\<lparr>page := remove_from i (page s)\<rparr>)" by (simp add: page_side_def)
  then show ?thesis using assms RemoveRipple by (auto intro: inv_page_side quiet_page_side)
next
  case CallHandleResize
  from assms obtain b ns ss ps where
    ov: "overlay_is s b ns ss ps" and len: "length ps = n" and lp: "loop_inv s"
    unfolding inv_def by blast
  from handleResize_overlay [OF ov] obtain s' xs ys cs where
    r: "handleResize s = Some s'" "overlay_is s' b (ys @ cs) xs ps" "overlay_only s s'"
    by blast
  have "inv n s'" unfolding inv_def using r(2) len loop_inv_overlay_only [OF lp r(3)] by blast
  then show ?thesis using CallHandleResize r(1) quiet_overlay_only [OF r(3)] by simp
qed

lemma quiet_trans: "quiet s s1 \<Longrightarrow> quiet s1 s2 \<Longrightarrow> quiet s s2"
  by (simp add: quiet_def)

lemma step_Timeout:
  assumes "inv n s"
  shows "\<exists>s'. step (Timeout i) s = Some s' \<and> inv n s' \<and> quiet s s'"
proof (cases "find (\<lambda>tm. timer_id tm = i) (timers s)")
  case None
  then show ?thesis using assms by (simp add: quiet_def)
next
  case (Some tm)
  show ?thesis
  proof (cases "due tm \<le> clock s")
    case False
    then show ?thesis using assms Some by (simp add: quiet_def)
  next
    case True
    let ?s0 = "s\<lparr>timers := filter (\<lambda>tm'. timer_id tm' \<noteq> i) (timers s)\<rparr>"
    have ps: "page_side s ?s0" by (simp add: page_side_def)
    from run_callback_inv [OF inv_page_side [OF assms ps], of "action tm"] obtain s' where
      "run_callback (action tm) ?s0 = Some s'" "inv n s'" "quiet ?s0 s'"
      by blast
    then show ?thesis
      using Some True quiet_trans [OF quiet_page_side [OF ps]] by simp
  qed
qed

lemma step_Intersection:
  assumes "inv n s"
  shows "\<exists>s'. step (Intersection es) s = Some s' \<and> inv n s' \<and> quiet s s'"
  using assms by (auto intro: inv_page_side quiet_page_side page_side_onIntersection)

lemma step_MouseEnter:
  assumes "inv n s"
  shows "\<exists>s'. step (MouseEnter ev) s = Some s' \<and> inv n s' \<and> quiet s s'"
proof -
  let ?s1 = "if event_target ev \<in> set (button_listeners s) then onButtonHover ev s else s"
  let ?s2 = "if event_target ev \<in> set (card_listeners s)
             then update_page (event_target ev) onCardMouseMove ?s1 else ?s1"
  have "page_side s ?s1" by (simp add: page_side_refl page_side_onButtonHover)
  moreover have "page_side ?s1 ?s2" by (simp add: page_side_refl page_side_update_page)
  ultimately have "page_side s ?s2" by (rule page_side_trans)
  moreover have "step (MouseEnter ev) s = Some ?s2" by (simp add: Let_def)
  ultimately show ?thesis using assms by (blast intro: inv_page_side quiet_page_side)
qed

lemma step_MouseLeave:
  assumes "inv n s"
  shows "\<exists>s'. step (MouseLeave ev) s = Some s' \<and> inv n s' \<and> quiet s s'"
proof -
  let ?s1 = "if event_target ev \<in> set (button_listeners s) then onButtonLeave ev s else s"
  let ?s2 = "if event_target ev \<in> set (card_listeners s)
             then update_page (event_target ev) onCardMouseLeave ?s1 else ?s1"
  have "page_side s ?s1" by (simp add: page_side_refl page_side_onButtonLeave)
  moreover have "page_side ?s1 ?s2" by (simp add: page_side_refl page_side_update_page)
  ultimately have "page_side s ?s2" by (rule page_side_trans)
  moreover have "step (MouseLeave ev) s = Some ?s2" by (simp add: Let_def)
  ultimately show ?thesis using assms by (blast intro: inv_page_side quiet_page_side)
qed

lemma inv_same_overlay:
  assumes "inv n s" "loop_inv s'" "bgContainer s' = bgContainer s" "next_eid s' = next_eid s"
  shows "inv n s'"
  using assms unfolding inv_def overlay_is_def by auto

lemma step_Resize:
  assumes "inv n s"
  shows "\<exists>s'. step (Resize w) s = Some s' \<and> inv n s' \<and> quiet s s'"
proof -
  let ?s' = "onResize (s\<lparr>innerWidth := w\<rparr>)"
  have lp: "loop_inv ?s'"
    using assms by (auto simp: inv_def page_side_onResize intro: loop_inv_cong)
  have "inv n ?s'"
    by (rule inv_same_overlay [OF assms lp]) (simp_all add: page_side_onResize)
  then show ?thesis by (simp add: quiet_def page_side_onResize)
qed

lemma step_AnimationFrame:
  assumes "inv n s"
  shows "\<exists>s'. step (AnimationFrame t) s = Some s' \<and> inv n s' \<and>
     bgAttached s' = bgAttached s \<and> (frame_requests s = [] \<longrightarrow> s' = s)"
proof -
  have lp: "loop_inv s" using assms by (simp add: inv_def)
  show ?thesis
    using inv_same_overlay [OF assms run_frame_loop(1,2,3) [OF lp]] run_frame_loop(4) [OF lp]
    by (simp add: run_frame_idle)
qed

lemma step_Destroy:
  assumes "inv n s"
  shows "\<exists>s'. step Destroy s = Some s' \<and> inv n s' \<and> frame_requests s' = [] \<and>
     \<not> bgAttached s' \<and> frames_run s' = frames_run s"
proof -
  have lp: "loop_inv s" using assms by (simp add: inv_def)
  have bg: "bgContainer s \<noteq> None" using assms by (auto simp: inv_def overlay_is_def)
  have "loop_inv (destroy s)" using destroy_effect(1) [OF lp] by (simp add: loop_inv_def)
  then have "inv n (destroy s)"
    using destroy_effect(2,3) [OF lp] by (intro inv_same_overlay [OF assms])
  then show ?thesis using destroy_effect(1,4) [OF lp] destroy_effect(5) [OF lp bg] by simp
qed

lemma step_inv:
  assumes "inv n s"
  shows "\<exists>s'. step e s = Some s' \<and> inv n s' \<and>
     (if stopped s then stopped s' \<and> frames_run s' = frames_run s else True)"
proof (cases e)
  case (AnimationEnd p)
  then show ?thesis using step_AnimationEnd [OF assms, of p] by (auto simp: quiet_def stopped_def)
next
  case (Resize w)
  then show ?thesis using step_Resize [OF assms, of w] by (auto simp: quiet_def stopped_def)
next
  case (Elapse d)
  then show ?thesis using step_Elapse [OF assms, of d] by (auto simp: quiet_def stopped_def)
next
  case (Timeout i)
  then show ?thesis using step_Timeout [OF assms, of i] by (auto simp: quiet_def stopped_def)
next
  case (AnimationFrame t)
  then show ?thesis using step_AnimationFrame [OF assms, of t] by (auto simp: stopped_def)
next
  case (Intersection es)
  then show ?thesis using step_Intersection [OF assms, of es] by (auto simp: quiet_def stopped_def)
next
  case (MouseEnter ev)
  then show ?thesis using step_MouseEnter [OF assms, of ev] by (auto simp: quiet_def stopped_def)
next
  case (MouseLeave ev)
  then show ?thesis using step_MouseLeave [OF assms, of ev] by (auto simp: quiet_def stopped_def)
next
  case Destroy
  then show ?thesis using step_Destroy [OF assms] by (auto simp: stopped_def)
qed

lemma run_inv:
  assumes "inv n s"
  shows "\<exists>s'. run s es = Some s' \<and> inv n s' \<and>
     (if stopped s then stopped s' \<and> frames_run s' = frames_run s else True)"
  using assms
proof (induction es arbitrary: s)
  case Nil
  then show ?case by simp
next
  case (Cons e es)
  from step_inv [OF Cons.prems, of e] obtain s1 where
    s1: "step e s = Some s1" "inv n s1"
      "if stopped s then stopped s1 \<and> frames_run s1 = frames_run s else True"
    by blast
  from Cons.IH [OF s1(2)] obtain s' where
    s': "run s1 es = Some s'" "inv n s'"
      "if stopped s1 then stopped s' \<and> frames_run s' = frames_run s1 else True"
    by blast
  show ?case using s1 s' by (auto split: if_splits)
qed

lemma overlay_is_cong:
  "overlay_is s b ns ss ps \<Longrightarrow> bgContainer s' = bgContainer s \<Longrightarrow> next_eid s' = next_eid s \<Longrightarrow>
   overlay_is s' b ns ss ps"
  by (simp add: overlay_is_def)

lemma page_side_setupScrollAnimations: "page_side s (setupScrollAnimations s)"
  by (simp add: page_side_def setupScrollAnimations_def)

lemma page_side_setupInteractiveElements: "page_side s (setupInteractiveElements s)"
proof -
  let ?s1 = "s\<lparr>button_listeners := button_listeners s @
                 map eid (document_querySelectorAll [ByClass ''btn-primary'', ByClass ''btn-secondary''] s),
               card_listeners := card_listeners s @
                 map eid (document_querySelectorAll [ByClass ''portal-card''] s)\<rparr>"
  have "page_side s ?s1" by (simp add: page_side_def)
  moreover have "page_side ?s1
     (fold (\<lambda>icon. update_page (eid icon) (classList_add ''icon-bounce''))
        (document_querySelectorAll [ByTag ''svg''] s) ?s1)"
    by (rule page_side_fold) (rule page_side_update_page)
  ultimately show ?thesis
    unfolding setupInteractiveElements_def Let_def by (rule page_side_trans)
qed

lemma startAnimationLoop_eq:
  "startAnimationLoop s =
     s\<lparr>frame_counter := Suc (frame_counter s),
       frame_requests := frame_requests s @ [Suc (frame_counter s)],
       animationFrameId := Some (Suc (frame_counter s))\<rparr>"
  by (simp add: startAnimationLoop_def requestAnimationFrame_def Let_def)

lemma overlay_nodes:
  assumes "overlay_is s b (ys @ cs) ss ps" "list_all (\<lambda>x. classList x = [''neural-node'']) ys"
    "list_all (\<lambda>x. classList x = [''neural-connection'']) cs"
  shows "overlay_elements ''neural-node'' s = ys" "overlay_elements ''neural-connection'' s = cs"
proof -
  have bg: "bgContainer s = Some (mk_overlay b (ys @ cs) ss ps)"
    using assms by (simp add: overlay_is_def)
  have f1: "filter (matches [ByClass c]) ss = []" "filter (matches [ByClass c]) ps = []"
    if "c \<in> set [''neural-node'', ''neural-connection'']" for c
    using assms(1) that by (auto simp: overlay_is_def intro: filter_leaves_none)
  have y1: "filter (matches [ByClass ''neural-node'']) ys = ys"
    using assms(2) by (induction ys) (auto simp: matches_def contains_def)
  have y2: "filter (matches [ByClass ''neural-connection'']) ys = []"
    using assms(2) by (induction ys) (auto simp: matches_def contains_def)
  have c1: "filter (matches [ByClass ''neural-node'']) cs = []"
    using assms(3) by (induction cs) (auto simp: matches_def contains_def)
  have c2: "filter (matches [ByClass ''neural-connection'']) cs = cs"
    using assms(3) by (induction cs) (auto simp: matches_def contains_def)
  show "overlay_elements ''neural-node'' s = ys"
    using f1 [of "''neural-node''"] y1 c1
    by (simp add: overlay_elements_def bg querySelectorAll_def overlay_descendants [OF assms(1)]
        matches_def contains_def)
  show "overlay_elements ''neural-connection'' s = cs"
    using f1 [of "''neural-connection''"] y2 c2
    by (simp add: overlay_elements_def bg querySelectorAll_def overlay_descendants [OF assms(1)]
        matches_def contains_def)
qed

lemma init_overlay:
  assumes "frame_requests s = []" and "document_body s = Some body"
  shows "\<exists>s' b xs ps ys cs. init s = Some s' \<and> overlay_is s' b (ys @ cs) xs ps \<and>
     length xs = shapeCount s \<and> length ps = particleCount s \<and> length ys = nodeCount s \<and>
     list_all (\<lambda>x. classList x = [''neural-node'']) ys \<and>
     list_all (\<lambda>x. classList x = [''neural-connection'']) cs \<and>
     length (neuralNodes s') = length (neuralNodes s) + nodeCount s \<and>
     loop_inv s' \<and> bgAttached s' \<and> innerWidth s' = innerWidth s \<and>
     head_styles s' =
       head_styles s @ (if isReducedMotion s then [reduced_motion_css] else []) \<and>
     frame_requests s' = [Suc (frame_counter s)] \<and> frames_run s' = frames_run s \<and>
     isReducedMotion s' = isReducedMotion s"
proof -
  from createFuturisticBackground_overlay [OF assms(2)] obtain s1 xs where
    s1: "createFuturisticBackground s = Some s1" "overlay_is s1 (next_eid s) [] xs []"
      "length xs = shapeCount s" "draws_only (s\<lparr>bgAttached := True\<rparr>) s1"
    by blast
  let ?b = "next_eid s"
  let ?s2 = "setupScrollAnimations s1"
  have p12: "page_side s1 ?s2" by (rule page_side_setupScrollAnimations)
  have ov2: "overlay_is ?s2 ?b [] xs []" using s1(2) p12 by (rule overlay_is_page_side)
  from initParticleSystem_overlay [OF ov2] obtain s3 ps where
    s3: "initParticleSystem ?s2 = Some s3" "overlay_is s3 ?b [] xs ([] @ ps)"
      "length ps = particleCount ?s2" "draws_only ?s2 s3"
    by blast
  have ov3: "overlay_is s3 ?b [] xs ps" using s3(2) by simp
  from createNeuralNetwork_overlay [OF ov3] obtain s4 ys cs where
    s4: "createNeuralNetwork s3 = Some s4" "overlay_is s4 ?b ([] @ ys @ cs) xs ps"
      "length ys = nodeCount s3" "list_all (\<lambda>x. classList x = [''neural-node'']) ys"
      "list_all (\<lambda>x. classList x = [''neural-connection'']) cs"
      "length (neuralNodes s4) = length (neuralNodes s3) + nodeCount s3"
      "overlay_only s3 s4"
    by blast
  have ov4: "overlay_is s4 ?b (ys @ cs) xs ps" using s4(2) by simp
  let ?s5 = "setupInteractiveElements s4"
  have p45: "page_side s4 ?s5" by (rule page_side_setupInteractiveElements)
  have ov5: "overlay_is ?s5 ?b (ys @ cs) xs ps" using ov4 p45 by (rule overlay_is_page_side)
  let ?s6 = "startAnimationLoop ?s5"
  let ?s7 = "if isReducedMotion ?s6 then disableAnimations ?s6 else ?s6"
  have ov7: "overlay_is ?s7 ?b (ys @ cs) xs ps"
    by (rule overlay_is_cong [OF ov5]) (simp_all add: startAnimationLoop_eq disableAnimations_def)
  have eq: "init s = Some ?s7"
    by (simp add: init_def s1(1) s3(1) s4(1) Let_def)
  note f1 = overlay_only_fields [OF draws_only_overlay_only [OF s1(4)]]
  note f3 = overlay_only_fields [OF draws_only_overlay_only [OF s3(4)]]
  note f4 = overlay_only_fields [OF s4(7)]
  have w2: "innerWidth ?s2 = innerWidth s" using f1(3) p12 by (simp add: page_side_def)
  have w3: "innerWidth s3 = innerWidth s" using f3(3) w2 by simp
  have nn3: "neuralNodes s3 = neuralNodes s"
    using draws_only_neuralNodes [OF s1(4)] draws_only_neuralNodes [OF s3(4)] p12
    by (simp add: page_side_def)
  have fr5: "frame_requests ?s5 = []"
    using f1(10) f3(10) f4(10) p12 p45 assms by (simp add: page_side_def)
  have lp: "loop_inv ?s7"
    using fr5 by (simp add: loop_inv_def startAnimationLoop_eq disableAnimations_def)
  have att: "bgAttached ?s7"
    using f1(20) f3(20) f4(20) p12 p45
    by (simp add: page_side_def startAnimationLoop_eq disableAnimations_def)
  have iw: "innerWidth ?s7 = innerWidth s"
    using w3 f4(3) p45 by (simp add: startAnimationLoop_eq disableAnimations_def page_side_def)
  have rm: "isReducedMotion ?s6 = isReducedMotion s"
    using f1(17) f3(17) f4(17) p12 p45 by (simp add: page_side_def startAnimationLoop_eq)
  have hs5: "head_styles ?s6 = head_styles s"
    using f1(2) f3(2) f4(2) p12 p45 by (simp add: page_side_def startAnimationLoop_eq)
  have hs: "head_styles ?s7 =
       head_styles s @ (if isReducedMotion s then [reduced_motion_css] else [])"
    using rm hs5 by (simp add: disableAnimations_def)
  have l2: "length ps = particleCount s" using s3(3) w2 by (simp add: particleCount_def)
  have l3: "length ys = nodeCount s" using s4(3) w3 by (simp add: nodeCount_def)
  have nn7: "neuralNodes ?s7 = neuralNodes s4"
    using p45 by (simp add: page_side_def startAnimationLoop_eq disableAnimations_def)
  have l4: "length (neuralNodes ?s7) = length (neuralNodes s) + nodeCount s"
    using s4(6) w3 unfolding nn7 nn3 by (simp add: nodeCount_def)
  have fc5: "frame_counter ?s5 = frame_counter s"
    using f1(11) f3(11) f4(11) p12 p45 by (simp add: page_side_def)
  have fq: "frame_requests ?s7 = [Suc (frame_counter s)]"
    using fr5 fc5 by (simp add: startAnimationLoop_eq disableAnimations_def)
  have fn: "frames_run ?s7 = frames_run s"
    using f1(21) f3(21) f4(21) p12 p45
    by (simp add: page_side_def startAnimationLoop_eq disableAnimations_def)
  have rm7: "isReducedMotion ?s7 = isReducedMotion s"
    using rm by (simp add: disableAnimations_def)
  show ?thesis
    unfolding eq
    by (intro exI [of _ ?s7] exI [of _ ?b] exI [of _ xs] exI [of _ ps] exI [of _ ys]
        exI [of _ cs] conjI refl ov7 s1(3) l2 l3 s4(4) s4(5) l4 lp att iw hs fq fn rm7)
qed

section \<open>The state after construction\<close>

lemma boot_overlay:
  "\<exists>s b xs ps ys cs. boot env = Some s \<and> overlay_is s b (ys @ cs) xs ps \<and>
     length xs = (if env_innerWidth env < 768 then 8 else 15) \<and>
     length ps = (if env_innerWidth env < 768 then 20 else 40) \<and>
     length ys = (if env_innerWidth env < 768 then 12 else 20) \<and>
     list_all (\<lambda>x. classList x = [''neural-node'']) ys \<and>
     list_all (\<lambda>x. classList x = [''neural-connection'']) cs \<and>
     length (neuralNodes s) = (if env_innerWidth env < 768 then 12 else 20) \<and>
     loop_inv s \<and> bgAttached s \<and> innerWidth s = env_innerWidth env \<and>
     head_styles s =
       rippleCSS # (if env_reduced_motion env then [reduced_motion_css] else []) \<and>
     frame_requests s = [1] \<and> frames_run s = 0 \<and>
     isReducedMotion s = env_reduced_motion env"
proof -
  let ?s = "(loaded env)\<lparr>particles := [], neuralNodes := [],
             isReducedMotion := prefers_reduced_motion (loaded env),
             animationFrameId := None, lastTime := 0\<rparr>"
  have fr: "frame_requests ?s = []" by (simp add: loaded_def)
  have "find is_body (childNodes (env_html env) @
      [Element (eid (env_body env)) ''body'' (classList (env_body env)) (style (env_body env))
         (childNodes (env_body env))]) \<noteq> None"
    by (auto simp: find_None_iff is_body_def)
  then obtain body where bd: "document_body ?s = Some body"
    by (auto simp: document_body_def loaded_def html_document_def)
  from init_overlay [OF fr bd] obtain s' b xs ps ys cs where
    r: "init ?s = Some s'" "overlay_is s' b (ys @ cs) xs ps"
     "length xs = shapeCount ?s" "length ps = particleCount ?s" "length ys = nodeCount ?s"
     "list_all (\<lambda>x. classList x = [''neural-node'']) ys"
     "list_all (\<lambda>x. classList x = [''neural-connection'']) cs"
     "length (neuralNodes s') = length (neuralNodes ?s) + nodeCount ?s"
     "loop_inv s'" "bgAttached s'" "innerWidth s' = innerWidth ?s"
     "head_styles s' =
       head_styles ?s @ (if isReducedMotion ?s then [reduced_motion_css] else [])"
     "frame_requests s' = [Suc (frame_counter ?s)]" "frames_run s' = frames_run ?s"
     "isReducedMotion s' = isReducedMotion ?s"
    by blast
  have eq: "boot env = Some s'" using r(1) by (simp add: boot_def constructor_def)
  have l1: "length xs = (if env_innerWidth env < 768 then 8 else 15)"
    using r(3) by (simp add: shapeCount_def loaded_def)
  have l2: "length ps = (if env_innerWidth env < 768 then 20 else 40)"
    using r(4) by (simp add: particleCount_def loaded_def)
  have l3: "length ys = (if env_innerWidth env < 768 then 12 else 20)"
    using r(5) by (simp add: nodeCount_def loaded_def)
  have l4: "length (neuralNodes s') = (if env_innerWidth env < 768 then 12 else 20)"
    using r(8) by (simp add: nodeCount_def loaded_def)
  have iw: "innerWidth s' = env_innerWidth env" using r(11) by (simp add: loaded_def)
  have hs: "head_styles s' =
       rippleCSS # (if env_reduced_motion env then [reduced_motion_css] else [])"
    using r(12) by (simp add: loaded_def)
  have rm: "isReducedMotion s' = env_reduced_motion env" using r(15) by (simp add: loaded_def)
  have fq: "frame_requests s' = [1]" using r(13) by (simp add: loaded_def)
  have fn: "frames_run s' = 0" using r(14) by (simp add: loaded_def)
  show ?thesis
    by (intro exI [of _ s'] exI [of _ b] exI [of _ xs] exI [of _ ps] exI [of _ ys]
        exI [of _ cs] conjI eq r(2) l1 l2 l3 r(6) r(7) l4 r(9) r(10) iw hs fq fn rm)
qed

text \<open>
  C2. For every viewport width, construction succeeds and creates 8 floating shapes, 20
  particles and 12 neural nodes when the width is below 768, and 15, 40 and 20
  otherwise; \<^verbatim>\<open>this.neuralNodes\<close> has one entry per node.
\<close>

theorem viewport_counts:
  "\<exists>s. boot env = Some s \<and>
     length (overlay_elements ''hex-shape'' s) = (if env_innerWidth env < 768 then 8 else 15) \<and>
     length (overlay_elements ''particle'' s) = (if env_innerWidth env < 768 then 20 else 40) \<and>
     length (overlay_elements ''neural-node'' s) = (if env_innerWidth env < 768 then 12 else 20) \<and>
     length (neuralNodes s) = (if env_innerWidth env < 768 then 12 else 20)"
proof -
  from boot_overlay [of env] obtain s b xs ps ys cs where
    r: "boot env = Some s" "overlay_is s b (ys @ cs) xs ps"
     "length xs = (if env_innerWidth env < 768 then 8 else 15)"
     "length ps = (if env_innerWidth env < 768 then 20 else 40)"
     "length ys = (if env_innerWidth env < 768 then 12 else 20)"
     "list_all (\<lambda>x. classList x = [''neural-node'']) ys"
     "list_all (\<lambda>x. classList x = [''neural-connection'']) cs"
     "length (neuralNodes s) = (if env_innerWidth env < 768 then 12 else 20)"
    by blast
  show ?thesis
    using r(1,3,4,5,8)
    by (intro exI [of _ s])
      (simp add: overlay_shapes [OF r(2)] overlay_particles [OF r(2)]
        overlay_nodes(1) [OF r(2) r(6) r(7)])
qed

lemma boot_inv:
  "\<exists>s. boot env = Some s \<and> inv (if env_innerWidth env < 768 then 20 else 40) s \<and>
     bgAttached s \<and> innerWidth s = env_innerWidth env \<and> frame_requests s = [1] \<and>
     frames_run s = 0"
  using boot_overlay [of env] unfolding inv_def by blast

lemma reachable_inv:
  "\<exists>s0 s. boot env = Some s0 \<and> run s0 es = Some s \<and>
     inv (if env_innerWidth env < 768 then 20 else 40) s0 \<and>
     inv (if env_innerWidth env < 768 then 20 else 40) s \<and>
     bgAttached s0 \<and> frame_requests s0 = [1] \<and> frames_run s0 = 0"
proof -
  from boot_inv [of env] obtain s0 where
    s0: "boot env = Some s0" "inv (if env_innerWidth env < 768 then 20 else 40) s0"
      "bgAttached s0" "frame_requests s0 = [1]" "frames_run s0 = 0"
    by blast
  from run_inv [OF s0(2), of es] obtain s where
    "run s0 es = Some s" "inv (if env_innerWidth env < 768 then 20 else 40) s"
    by blast
  with s0 show ?thesis by blast
qed

lemma inv_particles: "inv n s \<Longrightarrow> length (overlay_elements ''particle'' s) = n"
  unfolding inv_def using overlay_particles by auto

text \<open>
  C3. In every state reached from construction by any events, the number of particles of
  the overlay is the number created at construction. When the animation of a rendered
  particle \<open>p\<close> ends, \<open>p\<close> is removed and exactly one particle, a new one, is
  appended; the end of an animation of anything else changes nothing.
\<close>

theorem particle_population_constant:
  "\<exists>s0 s s'. boot env = Some s0 \<and> run s0 es = Some s \<and> step (AnimationEnd p) s = Some s' \<and>
     length (overlay_elements ''particle'' s) = length (overlay_elements ''particle'' s0) \<and>
     length (overlay_elements ''particle'' s') = length (overlay_elements ''particle'' s0) \<and>
     length (overlay_elements ''particle'' s0) = (if env_innerWidth env < 768 then 20 else 40) \<and>
     map eid (overlay_elements ''particle'' s') =
       (if p \<in> set (map eid (rendered_particles s))
        then filter (\<lambda>i. i \<noteq> p) (map eid (overlay_elements ''particle'' s)) @ [next_eid s]
        else map eid (overlay_elements ''particle'' s))"
proof -
  let ?n = "if env_innerWidth env < 768 then 20 else 40"
  from reachable_inv [of env es] obtain s0 s where
    r: "boot env = Some s0" "run s0 es = Some s" "inv ?n s0" "inv ?n s"
    by blast
  from step_AnimationEnd [OF r(4), of p] obtain s' where
    s': "step (AnimationEnd p) s = Some s'" "inv ?n s'"
    by blast
  from r(4) obtain b ns ss ps where ov: "overlay_is s b ns ss ps"
    unfolding inv_def by blast
  have ids: "map eid (overlay_elements ''particle'' s') =
       (if p \<in> set (map eid (rendered_particles s))
        then filter (\<lambda>i. i \<noteq> p) (map eid (overlay_elements ''particle'' s)) @ [next_eid s]
        else map eid (overlay_elements ''particle'' s))"
  proof (cases "p \<in> set (map eid (rendered_particles s))")
    case False
    then show ?thesis using s'(1) by simp
  next
    case True
    then have p: "p \<in> set (map eid ps)"
      by (cases "bgAttached s") (simp_all add: rendered_particles_overlay [OF ov])
    from onParticleAnimationEnd_overlay [OF ov p] obtain s2 x where
      x: "onParticleAnimationEnd p s = Some s2"
        "overlay_is s2 b ns ss (filter (\<lambda>c. eid c \<noteq> p) ps @ [x])" "eid x = next_eid s"
      by blast
    have "s2 = s'" using x(1) s'(1) True by simp
    then show ?thesis
      using True x(3) overlay_particles [OF x(2)] overlay_particles [OF ov]
      by (simp add: filter_map comp_def)
  qed
  show ?thesis
    using r(1,2) s'(1) inv_particles [OF r(3)] inv_particles [OF r(4)] inv_particles [OF s'(2)] ids
    by (intro exI [of _ s0] exI [of _ s] exI [of _ s']) simp
qed

lemma overlay_ids_below:
  assumes "overlay_is s b ns ss ps"
  shows "list_all (\<lambda>e. eid e < next_eid s) (ns @ ss @ ps)"
  using assms by (auto simp: overlay_is_def list_all_iff leaf_def)

lemma overlay_network_elements:
  assumes "overlay_is s b ns ss ps"
  shows "overlay_elements ''neural-node'' s @ overlay_elements ''neural-connection'' s =
     filter (matches [ByClass ''neural-node'']) ns @ filter (matches [ByClass ''neural-connection'']) ns"
proof -
  have bg: "bgContainer s = Some (mk_overlay b ns ss ps)"
    using assms by (simp add: overlay_is_def)
  have f1: "filter (matches [ByClass c]) ss = []" "filter (matches [ByClass c]) ps = []"
    if "c \<in> set [''neural-node'', ''neural-connection'']" for c
    using assms(1) that by (auto simp: overlay_is_def intro: filter_leaves_none)
  show ?thesis
    using f1 [of "''neural-node''"] f1 [of "''neural-connection''"]
    by (simp add: overlay_elements_def bg querySelectorAll_def overlay_descendants [OF assms(1)]
        matches_def contains_def)
qed

text \<open>
  C4. In every state reached from construction, \<^verbatim>\<open>handleResize\<close> succeeds; afterwards
  the floating shapes and neural nodes are as many as the current viewport width asks
  for, every shape, node and connection is an element created by this call (none of the
  old ones is left), and the particles are the same elements as before.
\<close>

theorem resize_regenerates:
  "\<exists>s0 s s'. boot env = Some s0 \<and> run s0 es = Some s \<and> handleResize s = Some s' \<and>
     length (overlay_elements ''hex-shape'' s') = (if innerWidth s < 768 then 8 else 15) \<and>
     length (overlay_elements ''neural-node'' s') = (if innerWidth s < 768 then 12 else 20) \<and>
     length (neuralNodes s') = (if innerWidth s < 768 then 12 else 20) \<and>
     list_all (\<lambda>e. eid e < next_eid s)
       (overlay_elements ''hex-shape'' s @ overlay_elements ''neural-node'' s @
        overlay_elements ''neural-connection'' s) \<and>
     list_all (\<lambda>e. next_eid s \<le> eid e)
       (overlay_elements ''hex-shape'' s' @ overlay_elements ''neural-node'' s' @
        overlay_elements ''neural-connection'' s') \<and>
     overlay_elements ''particle'' s' = overlay_elements ''particle'' s"
proof -
  let ?n = "if env_innerWidth env < 768 then 20 else 40"
  from reachable_inv [of env es] obtain s0 s where
    r: "boot env = Some s0" "run s0 es = Some s" "inv ?n s"
    by blast
  from r(3) obtain b ns ss ps where ov: "overlay_is s b ns ss ps"
    unfolding inv_def by blast
  from handleResize_overlay [OF ov] obtain s' xs ys cs where
    h: "handleResize s = Some s'" "overlay_is s' b (ys @ cs) xs ps"
      "length xs = shapeCount s" "length ys = nodeCount s"
      "list_all (\<lambda>x. classList x = [''neural-node'']) ys"
      "list_all (\<lambda>x. classList x = [''neural-connection'']) cs"
      "list_all (\<lambda>x. next_eid s \<le> eid x) (xs @ ys @ cs)"
      "length (neuralNodes s') = nodeCount s"
    by blast
  note nodes = overlay_nodes [OF h(2) h(5) h(6)]
  have old: "list_all (\<lambda>e. eid e < next_eid s)
       (overlay_elements ''hex-shape'' s @ overlay_elements ''neural-node'' s @
        overlay_elements ''neural-connection'' s)"
    using overlay_ids_below [OF ov] overlay_network_elements [OF ov]
    by (auto simp: overlay_shapes [OF ov] list_all_iff)
  show ?thesis
    using r(1,2) h(1,3,4,7,8) old
    by (intro exI [of _ s0] exI [of _ s] exI [of _ s'])
      (simp add: overlay_shapes [OF h(2)] nodes overlay_particles [OF h(2)]
        overlay_particles [OF ov] shapeCount_def nodeCount_def)
qed

lemma document_detached: "\<not> bgAttached s \<Longrightarrow> document s = page s"
  by (simp add: document_def split: option.splits)

text \<open>
  C8. After construction the overlay is in the body and a frame is requested. Whatever
  happened since, once \<^verbatim>\<open>destroy\<close> has run the overlay is not a child of the body (the
  document holds the page only) and no frame is requested, and this stays so under all
  later events: the frame callback does not run again.
\<close>

theorem destroy_halts_loop:
  "\<exists>s0 s s'. boot env = Some s0 \<and> run s0 es = Some s \<and> run (destroy s) es' = Some s' \<and>
     bgAttached s0 \<and> frame_requests s0 = [1] \<and>
     \<not> bgAttached (destroy s) \<and> document (destroy s) = page (destroy s) \<and>
     frame_requests (destroy s) = [] \<and> frames_run (destroy s) = frames_run s \<and>
     \<not> bgAttached s' \<and> document s' = page s' \<and>
     frame_requests s' = [] \<and> frames_run s' = frames_run s"
proof -
  let ?n = "if env_innerWidth env < 768 then 20 else 40"
  from reachable_inv [of env es] obtain s0 s where
    r: "boot env = Some s0" "run s0 es = Some s" "inv ?n s" "bgAttached s0"
      "frame_requests s0 = [1]"
    by blast
  from step_Destroy [OF r(3)] have
    d: "inv ?n (destroy s)" "frame_requests (destroy s) = []" "\<not> bgAttached (destroy s)"
      "frames_run (destroy s) = frames_run s"
    by simp_all
  have st: "stopped (destroy s)" using d(2,3) by (simp add: stopped_def)
  from run_inv [OF d(1), of es'] st obtain s' where
    s': "run (destroy s) es' = Some s'" "stopped s'" "frames_run s' = frames_run (destroy s)"
    by auto
  have a: "\<not> bgAttached s'" "frame_requests s' = []" using s'(2) by (simp_all add: stopped_def)
  show ?thesis
    using r(1,2,4,5) s'(1,3) d(2,3,4) a document_detached [OF d(3)]
      document_detached [OF a(1)]
    by (intro exI [of _ s0] exI [of _ s] exI [of _ s']) simp
qed

text \<open>
  C7. Construction reads the motion preference; when it asks for reduced motion, the
  reduced-motion style sheet is appended to the head (and not otherwise). Its rule
  selects every element and pseudo-element and declares the animation duration and the
  transition duration \<^verbatim>\<open>!important\<close> with 0.01ms; the ripple sheet declares none.
\<close>

theorem reduced_motion_override:
  "\<exists>s. boot env = Some s \<and> isReducedMotion s = env_reduced_motion env \<and>
     head_styles s = rippleCSS # (if env_reduced_motion env then [reduced_motion_css] else []) \<and>
     concat (map (important_ms ''animation-duration'') reduced_motion_css) =
       [([''*'', ''*::before'', ''*::after''], 1 / 100)] \<and>
     concat (map (important_ms ''transition-duration'') reduced_motion_css) =
       [([''*'', ''*::before'', ''*::after''], 1 / 100)] \<and>
     concat (map (important_ms ''animation-duration'') rippleCSS) = [] \<and>
     concat (map (important_ms ''transition-duration'') rippleCSS) = []"
proof -
  from boot_overlay [of env] obtain s where
    r: "boot env = Some s"
      "head_styles s = rippleCSS # (if env_reduced_motion env then [reduced_motion_css] else [])"
      "isReducedMotion s = env_reduced_motion env"
    by blast
  show ?thesis
    using r by (intro exI [of _ s]) (simp add: reduced_motion_css_def rippleCSS_def)
qed

section \<open>Connections between close nodes\<close>

text \<open>
  C1. On an overlay in shape, \<^verbatim>\<open>createNeuralConnections\<close> appends to the network
  layer one connection for each pair of nodes at indices \<open>i < j\<close> whose distance, as
  the source computes it (the square root of the sum of the squares of the differences,
  every step in binary64), is below 30, and nothing else; the connection starts at the
  earlier node, its width is that distance and its angle is \<^verbatim>\<open>Math.atan2\<close> of the
  differences, later minus earlier.
\<close>

theorem neural_connections_close_pairs:
  assumes "overlay_is s b ns ss ps"
  shows "\<exists>cs. network_children (createNeuralConnections (b + 2) s) = network_children s @ cs \<and>
     list_all (contains ''neural-connection'') cs \<and>
     map geometry cs =
       [line (neuralNodes s ! i) (neuralNodes s ! j).
          i \<leftarrow> [0..<length (neuralNodes s)], j \<leftarrow> [Suc i..<length (neuralNodes s)],
          distance (neuralNodes s ! i) (neuralNodes s ! j) < 30]"
proof -
  from createNeuralConnections_overlay [OF assms] obtain cs where
    cs: "overlay_is (createNeuralConnections (Suc (Suc b)) s) b (ns @ cs) ss ps"
      "list_all (\<lambda>x. classList x = [''neural-connection'']) cs"
      "map geometry cs =
         [line (neuralNodes s ! i) (neuralNodes s ! j).
            i \<leftarrow> [0..<length (neuralNodes s)], j \<leftarrow> [Suc i..<length (neuralNodes s)],
            distance (neuralNodes s ! i) (neuralNodes s ! j) < 30]"
    by blast
  have "list_all (contains ''neural-connection'') cs"
    using cs(2) by (induction cs) (auto simp: contains_def)
  moreover have e: "createNeuralConnections (b + 2) s = createNeuralConnections (Suc (Suc b)) s"
    by simp
  ultimately show ?thesis
    unfolding e
    using cs(3) overlay_network_children [OF cs(1)] overlay_network_children [OF assms]
    by (intro exI [of _ cs]) simp
qed

section \<open>Rounding to binary64\<close>

lemma round_even_near: "\<bar>r - of_int m\<bar> < 1 / 2 \<Longrightarrow> round_even r = m"
proof -
  assume a: "\<bar>r - of_int m\<bar> < 1 / 2"
  show ?thesis
  proof (cases "of_int m \<le> r")
    case True
    then have f: "\<lfloor>r\<rfloor> = m" using a by (intro floor_unique) auto
    show ?thesis using a True by (simp add: round_even_def f Let_def)
  next
    case False
    then have f: "\<lfloor>r\<rfloor> = m - 1" using a by (intro floor_unique) auto
    show ?thesis using a False by (simp add: round_even_def f Let_def)
  qed
qed

lemma round_even_tie: "even m \<Longrightarrow> \<bar>r - of_int m\<bar> = 1 / 2 \<Longrightarrow> round_even r = m"
proof -
  assume e: "even m" and a: "\<bar>r - of_int m\<bar> = 1 / 2"
  show ?thesis
  proof (cases "of_int m \<le> r")
    case True
    then have r: "r = of_int m + 1 / 2" using a by simp
    have f: "\<lfloor>r\<rfloor> = m" unfolding r by (intro floor_unique) auto
    show ?thesis using e by (simp add: round_even_def f Let_def) (simp add: r)
  next
    case False
    then have r: "r = of_int m - 1 / 2" using a by simp
    have f: "\<lfloor>r\<rfloor> = m - 1" unfolding r by (intro floor_unique) auto
    show ?thesis using e by (simp add: round_even_def f Let_def) (simp add: r)
  qed
qed

lemma ulp_exponent_binade:
  assumes "2 powr of_int k \<le> \<bar>x\<bar>" "\<bar>x\<bar> < 2 powr of_int (k + 1)" "- 1022 \<le> k"
  shows "ulp_exponent x = k - 52"
proof -
  have pos: "0 < \<bar>x\<bar>" using assms(1) by (smt (verit) powr_gt_zero)
  have "of_int k \<le> log 2 \<bar>x\<bar>" using assms(1) pos by (simp add: le_log_iff)
  moreover have "log 2 \<bar>x\<bar> < of_int (k + 1)" using assms(2) pos by (simp add: log_less_iff)
  ultimately have "\<lfloor>log 2 \<bar>x\<bar>\<rfloor> = k" by (intro floor_unique) auto
  then show ?thesis using assms(3) by (simp add: ulp_exponent_def)
qed

lemma round64_binade:
  assumes "2 powr of_int k \<le> \<bar>x\<bar>" "\<bar>x\<bar> < 2 powr of_int (k + 1)" "- 1022 \<le> k"
  shows "round64 x =
      of_int (round_even (x / 2 powr of_int (k - 52))) * 2 powr of_int (k - 52)"
proof -
  have "x \<noteq> 0" using assms(1) by (smt (verit) powr_gt_zero)
  then show ?thesis
    unfolding round64_def ulp_exponent_binade [OF assms] by (rule if_not_P)
qed

text \<open>
  A real in the binade of \<open>2 powr k\<close> that is less than half a unit of the last place
  away from \<open>m * 2 powr (k - 52)\<close> is rounded to it; half way between two binary64
  values it is rounded to the even significand.
\<close>

lemma round64_near:
  assumes "2 powr of_int k \<le> \<bar>x\<bar>" "\<bar>x\<bar> < 2 powr of_int (k + 1)" "- 1022 \<le> k"
    and "\<bar>x / 2 powr of_int (k - 52) - of_int m\<bar> < 1 / 2"
  shows "round64 x = of_int m * 2 powr of_int (k - 52)"
  unfolding round64_binade [OF assms(1,2,3)] round_even_near [OF assms(4)] ..

lemma round64_tie:
  assumes "2 powr of_int k \<le> \<bar>x\<bar>" "\<bar>x\<bar> < 2 powr of_int (k + 1)" "- 1022 \<le> k"
    and "even m" "\<bar>x / 2 powr of_int (k - 52) - of_int m\<bar> = 1 / 2"
  shows "round64 x = of_int m * 2 powr of_int (k - 52)"
  unfolding round64_binade [OF assms(1,2,3)] round_even_tie [OF assms(4,5)] ..

lemma round64_between:
  assumes "2 powr of_int k \<le> x" "x < 2 powr of_int (k + 1)" "- 1022 \<le> k"
    and "(of_int m - 1 / 2) * 2 powr of_int (k - 52) < x"
    and "x < (of_int m + 1 / 2) * 2 powr of_int (k - 52)"
  shows "round64 x = of_int m * 2 powr of_int (k - 52)"
proof -
  have q: "0 < 2 powr real_of_int (k - 52)" by simp
  have x: "0 < x" using assms(1) by (smt (verit) powr_gt_zero)
  have "of_int m - 1 / 2 < x / 2 powr of_int (k - 52)"
    using assms(4) q by (simp add: pos_less_divide_eq)
  moreover have "x / 2 powr of_int (k - 52) < of_int m + 1 / 2"
    using assms(5) q by (simp add: pos_divide_less_eq)
  ultimately have "\<bar>x / 2 powr of_int (k - 52) - of_int m\<bar> < 1 / 2"
    unfolding abs_less_iff by linarith
  moreover have "2 powr of_int k \<le> \<bar>x\<bar>" "\<bar>x\<bar> < 2 powr of_int (k + 1)"
    using assms(1,2) x by simp_all
  ultimately show ?thesis using assms(3) by (intro round64_near)
qed

lemma sqrt_between:
  assumes "0 \<le> lo" "lo\<^sup>2 < v" "v < hi\<^sup>2" "0 \<le> hi"
  shows "lo < sqrt v" "sqrt v < hi"
proof -
  show "lo < sqrt v" using assms(2) by (rule real_less_rsqrt)
  show "sqrt v < hi" using assms(4,3) by (rule real_less_lsqrt)
qed

text \<open>The two sample pairs, evaluated step by step.\<close>

lemma distance_sample:
  "distance \<lparr>node_element = 0, node_x = (3491441049456175 / 2 ^ 49), node_y = (1628786575746161 / 2 ^ 45)\<rparr>
            \<lparr>node_element = 0, node_x = (1192355973809975 / 2 ^ 45), node_y = (4070458201892867 / 2 ^ 46)\<rparr> = (8444249301319679 / 2 ^ 48)"
  "fsub (1192355973809975 / 2 ^ 45) (3491441049456175 / 2 ^ 49) = (243535227054741 / 2 ^ 43)"
  "fsub (4070458201892867 / 2 ^ 46) (1628786575746161 / 2 ^ 45) = (812885050400545 / 2 ^ 46)"
proof -
  have dx: "fsub (3491441049456175 / 2 ^ 49) (1192355973809975 / 2 ^ 45) = - 243535227054741 / 2 ^ 43"
  proof -
    have "round64 ((3491441049456175 / 2 ^ 49) - (1192355973809975 / 2 ^ 45)) = real_of_int (- 7793127265751712) * 2 powr of_int (4 - 52)"
      by (rule round64_tie) (simp_all add: powr_minus divide_simps)
    also have "\<dots> = - 243535227054741 / 2 ^ 43" by (simp add: powr_minus divide_simps)
    finally show ?thesis unfolding fsub_def .
  qed
  have dy: "fsub (1628786575746161 / 2 ^ 45) (4070458201892867 / 2 ^ 46) = - 812885050400545 / 2 ^ 46"
  proof -
    have "round64 ((1628786575746161 / 2 ^ 45) - (4070458201892867 / 2 ^ 46)) = real_of_int (- 6503080403204360) * 2 powr of_int (3 - 52)"
      by (rule round64_near) (simp_all add: powr_minus divide_simps)
    also have "\<dots> = - 812885050400545 / 2 ^ 46" by (simp add: powr_minus divide_simps)
    finally show ?thesis unfolding fsub_def .
  qed
  have px: "Math_pow (- 243535227054741 / 2 ^ 43) 2 = 6742698908124595 / 2 ^ 43"
  proof -
    have "round64 ((- 243535227054741 / 2 ^ 43) ^ 2) = real_of_int 6742698908124595 * 2 powr of_int (9 - 52)"
      by (rule round64_near) (simp_all add: powr_minus divide_simps)
    also have "\<dots> = 6742698908124595 / 2 ^ 43" by (simp add: powr_minus divide_simps)
    finally show ?thesis unfolding Math_pow_def .
  qed
  have py: "Math_pow (- 812885050400545 / 2 ^ 46) 2 = 4695139247450417 / 2 ^ 45"
  proof -
    have "round64 ((- 812885050400545 / 2 ^ 46) ^ 2) = real_of_int 4695139247450417 * 2 powr of_int (7 - 52)"
      by (rule round64_near) (simp_all add: powr_minus divide_simps)
    also have "\<dots> = 4695139247450417 / 2 ^ 45" by (simp add: powr_minus divide_simps)
    finally show ?thesis unfolding Math_pow_def .
  qed
  have sm: "fadd (6742698908124595 / 2 ^ 43) (4695139247450417 / 2 ^ 45) = 7916483719987199 / 2 ^ 43"
  proof -
    have "round64 ((6742698908124595 / 2 ^ 43) + (4695139247450417 / 2 ^ 45)) = real_of_int 7916483719987199 * 2 powr of_int (9 - 52)"
      by (rule round64_near) (simp_all add: powr_minus divide_simps)
    also have "\<dots> = 7916483719987199 / 2 ^ 43" by (simp add: powr_minus divide_simps)
    finally show ?thesis unfolding fadd_def .
  qed
  have ex: "fsub (1192355973809975 / 2 ^ 45) (3491441049456175 / 2 ^ 49) = 243535227054741 / 2 ^ 43"
  proof -
    have "round64 ((1192355973809975 / 2 ^ 45) - (3491441049456175 / 2 ^ 49)) = real_of_int 7793127265751712 * 2 powr of_int (4 - 52)"
      by (rule round64_tie) (simp_all add: powr_minus divide_simps)
    also have "\<dots> = 243535227054741 / 2 ^ 43" by (simp add: powr_minus divide_simps)
    finally show ?thesis unfolding fsub_def .
  qed
  have ey: "fsub (4070458201892867 / 2 ^ 46) (1628786575746161 / 2 ^ 45) = 812885050400545 / 2 ^ 46"
  proof -
    have "round64 ((4070458201892867 / 2 ^ 46) - (1628786575746161 / 2 ^ 45)) = real_of_int 6503080403204360 * 2 powr of_int (3 - 52)"
      by (rule round64_near) (simp_all add: powr_minus divide_simps)
    also have "\<dots> = 812885050400545 / 2 ^ 46" by (simp add: powr_minus divide_simps)
    finally show ?thesis unfolding fsub_def .
  qed
  have b: "16 < sqrt (7916483719987199 / 2 ^ 43)" "sqrt (7916483719987199 / 2 ^ 43) < 32"
    by (rule sqrt_between [of 16 _ 32]; simp add: divide_simps)+
  have lo: "(8444249301319679 - 1 / 2) / 2 ^ 48 < sqrt (7916483719987199 / 2 ^ 43)"
    and hi: "sqrt (7916483719987199 / 2 ^ 43) < (8444249301319679 + 1 / 2) / 2 ^ 48"
    by (rule sqrt_between [of "(8444249301319679 - 1 / 2) / 2 ^ 48" _ "(8444249301319679 + 1 / 2) / 2 ^ 48"];
        simp add: power2_eq_square divide_simps)+
  have sq: "Math_sqrt (7916483719987199 / 2 ^ 43) = (8444249301319679 / 2 ^ 48)"
  proof -
    have "round64 (sqrt (7916483719987199 / 2 ^ 43)) = real_of_int 8444249301319679 * 2 powr of_int (4 - 52)"
      using b lo hi by (intro round64_between) (simp_all add: powr_minus divide_simps)
    also have "\<dots> = (8444249301319679 / 2 ^ 48)" by (simp add: powr_minus divide_simps)
    finally show ?thesis unfolding Math_sqrt_def .
  qed
  show "distance \<lparr>node_element = 0, node_x = (3491441049456175 / 2 ^ 49), node_y = (1628786575746161 / 2 ^ 45)\<rparr>
            \<lparr>node_element = 0, node_x = (1192355973809975 / 2 ^ 45), node_y = (4070458201892867 / 2 ^ 46)\<rparr> = (8444249301319679 / 2 ^ 48)"
    by (simp only: distance_def neural_node.simps dx dy px py sm sq)
  show "fsub (1192355973809975 / 2 ^ 45) (3491441049456175 / 2 ^ 49) = (243535227054741 / 2 ^ 43)" by (rule ex)
  show "fsub (4070458201892867 / 2 ^ 46) (1628786575746161 / 2 ^ 45) = (812885050400545 / 2 ^ 46)" by (rule ey)
qed

lemma distance_threshold:
  "distance \<lparr>node_element = 0, node_x = (1819023462357525 / 2 ^ 47), node_y = (5470449638615039 / 2 ^ 46)\<rparr>
            \<lparr>node_element = 0, node_x = (5783886465085075 / 2 ^ 48), node_y = (6857373872331069 / 2 ^ 47)\<rparr> = 30"
proof -
  have dx: "fsub (1819023462357525 / 2 ^ 47) (5783886465085075 / 2 ^ 48) = - 2145839540370025 / 2 ^ 48"
  proof -
    have "round64 ((1819023462357525 / 2 ^ 47) - (5783886465085075 / 2 ^ 48)) = real_of_int (- 8583358161480100) * 2 powr of_int (2 - 52)"
      by (rule round64_near) (simp_all add: powr_minus divide_simps)
    also have "\<dots> = - 2145839540370025 / 2 ^ 48" by (simp add: powr_minus divide_simps)
    finally show ?thesis unfolding fsub_def .
  qed
  have dy: "fsub (5470449638615039 / 2 ^ 46) (6857373872331069 / 2 ^ 47) = 4083525404899009 / 2 ^ 47"
  proof -
    have "round64 ((5470449638615039 / 2 ^ 46) - (6857373872331069 / 2 ^ 47)) = real_of_int 8167050809798018 * 2 powr of_int (4 - 52)"
      by (rule round64_near) (simp_all add: powr_minus divide_simps)
    also have "\<dots> = 4083525404899009 / 2 ^ 47" by (simp add: powr_minus divide_simps)
    finally show ?thesis unfolding fsub_def .
  qed
  have px: "Math_pow (- 2145839540370025 / 2 ^ 48) 2 = 511216328493207 / 2 ^ 43"
  proof -
    have "round64 ((- 2145839540370025 / 2 ^ 48) ^ 2) = real_of_int 8179461255891312 * 2 powr of_int (5 - 52)"
      by (rule round64_near) (simp_all add: powr_minus divide_simps)
    also have "\<dots> = 511216328493207 / 2 ^ 43" by (simp add: powr_minus divide_simps)
    finally show ?thesis unfolding Math_pow_def .
  qed
  have py: "Math_pow (4083525404899009 / 2 ^ 47) 2 = 7405267391493993 / 2 ^ 43"
  proof -
    have "round64 ((4083525404899009 / 2 ^ 47) ^ 2) = real_of_int 7405267391493993 * 2 powr of_int (9 - 52)"
      by (rule round64_near) (simp_all add: powr_minus divide_simps)
    also have "\<dots> = 7405267391493993 / 2 ^ 43" by (simp add: powr_minus divide_simps)
    finally show ?thesis unfolding Math_pow_def .
  qed
  have sm: "fadd (511216328493207 / 2 ^ 43) (7405267391493993 / 2 ^ 43) = 900"
  proof -
    have "round64 ((511216328493207 / 2 ^ 43) + (7405267391493993 / 2 ^ 43)) = real_of_int 7916483719987200 * 2 powr of_int (9 - 52)"
      by (rule round64_near) (simp_all add: powr_minus divide_simps)
    also have "\<dots> = 900" by (simp add: powr_minus divide_simps)
    finally show ?thesis unfolding fadd_def .
  qed
  have s30: "sqrt 900 = 30" by (rule real_sqrt_unique) simp_all
  have sq: "Math_sqrt 900 = 30"
  proof -
    have "round64 30 = real_of_int 8444249301319680 * 2 powr of_int (4 - 52)"
      by (rule round64_near) (simp_all add: powr_minus divide_simps)
    also have "\<dots> = 30" by (simp add: powr_minus divide_simps)
    finally show ?thesis unfolding Math_sqrt_def s30 .
  qed
  show ?thesis
    by (simp only: distance_def neural_node.simps dx dy px py sm sq)
qed

text \<open>
  The first pair has the computed distance 29.999999999999996 and gets a connection of
  that width, from the earlier node, at the angle of the rounded differences; its exact
  distance is above 30. The second pair has the computed distance 30 and gets no
  connection; its exact distance is below 30.
\<close>

theorem neural_connections_witness:
  "overlay_is sample_state 1 [] [] [] \<and>
   (\<exists>cs. network_children (createNeuralConnections 3 sample_state) = cs \<and>
      map geometry cs =
        [([Num (3491441049456175 / 2 ^ 49), Lit ''%''], [Num (1628786575746161 / 2 ^ 45), Lit ''%''],
          [Num (8444249301319679 / 2 ^ 48), Lit ''%''],
          [Lit ''rotate('', Num (Math_atan2 (812885050400545 / 2 ^ 46) (243535227054741 / 2 ^ 43)),
           Lit ''rad)''])]) \<and>
   30 < sqrt (((3491441049456175 / 2 ^ 49) - (1192355973809975 / 2 ^ 45))\<^sup>2 +
              ((1628786575746161 / 2 ^ 45) - (4070458201892867 / 2 ^ 46))\<^sup>2) \<and>
   overlay_is sample_threshold_state 1 [] [] [] \<and>
   (\<exists>cs. network_children (createNeuralConnections 3 sample_threshold_state) = cs \<and>
      map geometry cs = []) \<and>
   sqrt (((1819023462357525 / 2 ^ 47) - (5783886465085075 / 2 ^ 48))\<^sup>2 +
         ((5470449638615039 / 2 ^ 46) - (6857373872331069 / 2 ^ 47))\<^sup>2) < 30"
proof -
  define a where "a = \<lparr>node_element = 0, node_x = (3491441049456175 / 2 ^ 49), node_y = (1628786575746161 / 2 ^ 45)\<rparr>"
  define c where "c = \<lparr>node_element = 0, node_x = (1192355973809975 / 2 ^ 45), node_y = (4070458201892867 / 2 ^ 46)\<rparr>"
  define a' where "a' = \<lparr>node_element = 0, node_x = (1819023462357525 / 2 ^ 47), node_y = (5470449638615039 / 2 ^ 46)\<rparr>"
  define c' where "c' = \<lparr>node_element = 0, node_x = (5783886465085075 / 2 ^ 48), node_y = (6857373872331069 / 2 ^ 47)\<rparr>"
  have ov: "overlay_is sample_state 1 [] [] []"
    by (simp add: sample_state_def overlay_is_def loaded_def)
  have ov': "overlay_is sample_threshold_state 1 [] [] []"
    by (simp add: sample_threshold_state_def sample_state_def overlay_is_def loaded_def)
  have nn: "neuralNodes sample_state = [a, c]"
    by (simp add: sample_state_def a_def c_def)
  have nn': "neuralNodes sample_threshold_state = [a', c']"
    by (simp add: sample_threshold_state_def a'_def c'_def)
  have up: "[0..<2] = [0, 1]" "[Suc 0..<2] = [1]" "[Suc 1..<2] = []"
    by (simp_all add: upt_rec)
  have nc: "network_children sample_state = []"
    using overlay_network_children [OF ov] .
  have nc': "network_children sample_threshold_state = []"
    using overlay_network_children [OF ov'] .
  have three: "(1::nat) + 2 = 3" by simp
  have d: "distance a c < 30"
    unfolding a_def c_def distance_sample(1) by (simp add: divide_simps)
  have d': "\<not> distance a' c' < 30"
    unfolding a'_def c'_def distance_threshold by simp
  have ln: "line a c =
      ([Num (3491441049456175 / 2 ^ 49), Lit ''%''], [Num (1628786575746161 / 2 ^ 45), Lit ''%''],
       [Num (8444249301319679 / 2 ^ 48), Lit ''%''],
       [Lit ''rotate('', Num (Math_atan2 (812885050400545 / 2 ^ 46) (243535227054741 / 2 ^ 43)),
        Lit ''rad)''])"
    unfolding line_def distance_sample(1) [folded a_def c_def]
    by (simp only: a_def c_def neural_node.simps distance_sample)
  note t = neural_connections_close_pairs [OF ov, unfolded three nc nn]
  have r: "\<exists>cs. network_children (createNeuralConnections 3 sample_state) = cs \<and>
      map geometry cs =
        [([Num (3491441049456175 / 2 ^ 49), Lit ''%''], [Num (1628786575746161 / 2 ^ 45), Lit ''%''],
          [Num (8444249301319679 / 2 ^ 48), Lit ''%''],
          [Lit ''rotate('', Num (Math_atan2 (812885050400545 / 2 ^ 46) (243535227054741 / 2 ^ 43)),
           Lit ''rad)''])]"
    using t d unfolding ln [symmetric] by (simp add: up)
  note t' = neural_connections_close_pairs [OF ov', unfolded three nc' nn']
  have r': "\<exists>cs. network_children (createNeuralConnections 3 sample_threshold_state) = cs \<and>
      map geometry cs = []"
    using t' d' by (simp add: up)
  have e: "30 < sqrt (((3491441049456175 / 2 ^ 49) - (1192355973809975 / 2 ^ 45))\<^sup>2 +
              ((1628786575746161 / 2 ^ 45) - (4070458201892867 / 2 ^ 46))\<^sup>2)"
    by (rule real_less_rsqrt) (simp add: power2_eq_square divide_simps)
  have e': "sqrt (((1819023462357525 / 2 ^ 47) - (5783886465085075 / 2 ^ 48))\<^sup>2 +
         ((5470449638615039 / 2 ^ 46) - (6857373872331069 / 2 ^ 47))\<^sup>2) < 30"
    by (rule real_less_lsqrt) (simp_all add: power2_eq_square divide_simps)
  show ?thesis using ov r e ov' r' e' by (intro conjI)
qed

section \<open>Buttons: the ripple\<close>

lemma find_element_self: "eid e = i \<Longrightarrow> find_element i e = Some e"
  by (cases e) simp

lemma find_update:
  assumes "\<And>e. eid (f e) = eid e"
  shows "find_element i (update_element i f e) = map_option f (find_element i e)"
    and "find_in i (map (update_element i f) es) = map_option f (find_in i es)"
proof (induction i e and i es rule: find_element_find_in.induct)
  case (1 i j t cl st ch)
  then show ?case by (simp add: find_element_self assms)
next
  case (2 i)
  show ?case by simp
next
  case (3 i c cs)
  then show ?case by (simp split: option.splits)
qed

lemma find_absent:
  shows "list_all (\<lambda>x. eid x \<noteq> i) (e # descendants e) \<Longrightarrow> find_element i e = None"
    and "list_all (\<lambda>x. eid x \<noteq> i) (elements_of es) \<Longrightarrow> find_in i es = None"
proof (induction i e and i es rule: find_element_find_in.induct)
  case (1 i j t cl st ch)
  then show ?case by simp
next
  case (2 i)
  show ?case by simp
next
  case (3 i c cs)
  then show ?case by simp
qed

lemma remove_absent:
  shows "list_all (\<lambda>x. eid x \<noteq> i) (descendants e) \<Longrightarrow> remove_element i e = e"
    and "list_all (\<lambda>x. eid x \<noteq> i) (elements_of es) \<Longrightarrow>
         map (remove_element i) (filter (\<lambda>c. eid c \<noteq> i) es) = es"
proof (induction e and es rule: descendants_elements_of.induct)
  case (1 j t cl st ch)
  then show ?case by simp
next
  case 2
  show ?case by simp
next
  case (3 c cs)
  then show ?case by simp
qed

lemma eid_update_element:
  "(\<And>e. eid (f e) = eid e) \<Longrightarrow> eid (update_element t f e) = eid e"
  by (cases e) simp

lemma eid_appendChild [simp]: "eid (appendChild r e) = eid e"
  by (cases e) (simp add: appendChild_def)

lemma remove_appended:
  assumes "eid r = i" "childNodes r = []"
  shows "list_all (\<lambda>x. eid x \<noteq> i) (descendants e) \<Longrightarrow>
         remove_element i (update_element t (appendChild r) e) = e"
    and "list_all (\<lambda>x. eid x \<noteq> i) (elements_of es) \<Longrightarrow>
         map (remove_element i)
           (filter (\<lambda>c. eid c \<noteq> i) (map (update_element t (appendChild r)) es)) = es"
proof (induction e and es rule: descendants_elements_of.induct)
  case (1 j u cl st ch)
  show ?case
  proof (cases "t = j")
    case True
    then show ?thesis
      using 1 assms remove_absent(2) [of i ch] by (simp add: appendChild_def)
  next
    case False
    then show ?thesis using 1 by simp
  qed
next
  case 2
  show ?case by simp
next
  case (3 c cs)
  then show ?case by (simp add: eid_update_element)
qed

lemma ids_update_style:
  assumes "\<And>e. eid (f e) = eid e" "\<And>e. childNodes (f e) = childNodes e"
  shows "map eid (descendants (update_element t f e)) = map eid (descendants e)"
    and "map eid (elements_of (map (update_element t f) es)) = map eid (elements_of es)"
proof (induction e and es rule: descendants_elements_of.induct)
  case (1 j u cl st ch)
  show ?case
  proof (cases "t = j")
    case True
    have "descendants (f (Element j u cl st ch)) = elements_of (childNodes (f (Element j u cl st ch)))"
      by (cases "f (Element j u cl st ch)") simp
    then show ?thesis using True by (simp add: assms)
  next
    case False
    then show ?thesis using 1 by simp
  qed
next
  case 2
  show ?case by simp
next
  case (3 c cs)
  then show ?case by (simp add: eid_update_element assms)
qed

lemma onButtonHover_eq:
  "onButtonHover ev s =
     s\<lparr>next_eid := Suc (next_eid s),
       page := map (update_element (event_target ev) (appendChild (the_ripple ev s)))
                 (hovered_page ev s),
       timers := timers s @
         [\<lparr>timer_id = next_timer s, due = clock s + 600, action = RemoveRipple (next_eid s)\<rparr>],
       next_timer := Suc (next_timer s)\<rparr>"
  by (simp add: onButtonHover_def createRippleEffect_def createElement_def update_page_def
      setTimeout_def Let_def hovered_page_def the_ripple_def set_cssText_def)

lemma hovered_page_find:
  assumes "find_in (event_target ev) (page s) = Some button"
  shows "find_in (event_target ev) (hovered_page ev s) =
     Some (set_style ''overflow'' [Lit ''hidden'']
            (set_style ''position'' [Lit ''relative'']
              (set_style ''transform'' [Lit ''translateY(-4px)''] button)))"
  unfolding hovered_page_def using assms by (simp add: find_update(2) del: map_map)

lemma hovered_page_ids:
  "map eid (elements_of (hovered_page ev s)) = map eid (elements_of (page s))"
  unfolding hovered_page_def by (simp add: ids_update_style(2) del: map_map)

lemma list_all_ids:
  "map eid xs = map eid ys \<Longrightarrow> list_all (\<lambda>e. P (eid e)) xs = list_all (\<lambda>e. P (eid e)) ys"
proof -
  assume "map eid xs = map eid ys"
  then have "list_all P (map eid xs) = list_all P (map eid ys)" by simp
  then show ?thesis by (simp add: list_all_iff)
qed

lemma find_timer_new:
  assumes "list_all (\<lambda>tm. timer_id tm < n) tms"
  shows "find (\<lambda>tm. timer_id tm = n) (tms @ [\<lparr>timer_id = n, due = d, action = a\<rparr>]) =
       Some \<lparr>timer_id = n, due = d, action = a\<rparr>"
    and "filter (\<lambda>tm. timer_id tm \<noteq> n) (tms @ [\<lparr>timer_id = n, due = d, action = a\<rparr>]) = tms"
  using assms by (induction tms) auto

lemma get_style_appendChild [simp]: "get_style p (appendChild r e) = get_style p e"
  by (cases e) (simp add: appendChild_def get_style_def)

lemma childNodes_appendChild [simp]: "childNodes (appendChild r e) = childNodes e @ [r]"
  by (cases e) (simp add: appendChild_def)

lemma the_ripple_facts:
  "eid (the_ripple ev s) = next_eid s" "childNodes (the_ripple ev s) = []"
  "get_style ''width'' (the_ripple ev s) =
     [Num (max (rect_width (layout s (event_target ev))) (rect_height (layout s (event_target ev)))),
      Lit ''px'']"
  "get_style ''height'' (the_ripple ev s) =
     [Num (max (rect_width (layout s (event_target ev))) (rect_height (layout s (event_target ev)))),
      Lit ''px'']"
  "get_style ''left'' (the_ripple ev s) =
     [Num (clientX ev - rect_left (layout s (event_target ev)) -
           max (rect_width (layout s (event_target ev))) (rect_height (layout s (event_target ev))) / 2),
      Lit ''px'']"
  "get_style ''top'' (the_ripple ev s) =
     [Num (clientY ev - rect_top (layout s (event_target ev)) -
           max (rect_width (layout s (event_target ev))) (rect_height (layout s (event_target ev))) / 2),
      Lit ''px'']"
  by (simp_all add: the_ripple_def Let_def get_style_def ripple_cssText_def)

text \<open>
  C9. Let the target of a pointer-enter be an element of the page, in a state whose
  identities and timer handles in use are below the next ones. Then \<^verbatim>\<open>onButtonHover\<close>
  raises the button and appends to it one new element, the ripple, whose width and height
  are the larger side of the button's bounding box and whose left and top put its centre
  at the pointer, relative to the box; it schedules the removal of the ripple 600ms later.
  The timer leaves the page alone before that time, and once due it removes the ripple
  and nothing else. \<^verbatim>\<open>onButtonLeave\<close> clears the raise.
\<close>

theorem button_hover_ripple:
  assumes "find_in (event_target ev) (page s) = Some button"
    and "list_all (\<lambda>e. eid e < next_eid s) (elements_of (page s))"
    and "list_all (\<lambda>tm. timer_id tm < next_timer s) (timers s)"
  shows "let rect = layout s (event_target ev);
             size = max (rect_width rect) (rect_height rect);
             s' = onButtonHover ev s
         in \<exists>button' ripple.
              find_in (event_target ev) (page s') = Some button' \<and>
              get_style ''transform'' button' = [Lit ''translateY(-4px)''] \<and>
              childNodes button' = childNodes button @ [ripple] \<and>
              eid ripple = next_eid s \<and>
              get_style ''width'' ripple = [Num size, Lit ''px''] \<and>
              get_style ''height'' ripple = [Num size, Lit ''px''] \<and>
              get_style ''left'' ripple = [Num (clientX ev - rect_left rect - size / 2), Lit ''px''] \<and>
              get_style ''top'' ripple = [Num (clientY ev - rect_top rect - size / 2), Lit ''px''] \<and>
              timers s' = timers s @
                [\<lparr>timer_id = next_timer s, due = clock s + 600,
                  action = RemoveRipple (next_eid s)\<rparr>] \<and>
              (\<forall>d. \<exists>s''. step (Timeout (next_timer s)) (s'\<lparr>clock := clock s + d\<rparr>) = Some s'' \<and>
                    (if d < 600 then page s'' = page s'
                     else find_in (next_eid s) (page s'') = None \<and>
                          (\<exists>b. find_in (event_target ev) (page s'') = Some b \<and>
                               childNodes b = childNodes button))) \<and>
              (\<exists>b. find_in (event_target ev) (page (onButtonLeave ev s')) = Some b \<and>
                   get_style ''transform'' b = [])"
proof -
  let ?t = "event_target ev"
  let ?s' = "onButtonHover ev s"
  let ?r = "the_ripple ev s"
  let ?b1 = "set_style ''overflow'' [Lit ''hidden'']
            (set_style ''position'' [Lit ''relative'']
              (set_style ''transform'' [Lit ''translateY(-4px)''] button))"
  let ?b' = "appendChild ?r ?b1"
  note eq = onButtonHover_eq [of ev s]
  have pg: "page ?s' = map (update_element ?t (appendChild ?r)) (hovered_page ev s)"
    by (simp add: eq)
  have f1: "find_in ?t (hovered_page ev s) = Some ?b1"
    by (rule hovered_page_find [OF assms(1)])
  have f': "find_in ?t (page ?s') = Some ?b'"
    unfolding pg by (simp add: find_update(2) f1)
  have tm: "timers ?s' = timers s @
     [\<lparr>timer_id = next_timer s, due = clock s + 600, action = RemoveRipple (next_eid s)\<rparr>]"
    by (simp add: eq)
  have fresh: "list_all (\<lambda>x. eid x \<noteq> next_eid s) (elements_of (hovered_page ev s))"
  proof -
    have "list_all (\<lambda>e. eid e < next_eid s) (elements_of (hovered_page ev s))"
      using assms(2) list_all_ids [OF hovered_page_ids, of "\<lambda>i. i < next_eid s" ev s] by simp
    then show ?thesis by (auto simp: list_all_iff)
  qed
  have rm: "remove_from (next_eid s) (page ?s') = hovered_page ev s"
    unfolding pg remove_from_def
    by (rule remove_appended(2) [OF the_ripple_facts(1,2) fresh])
  have timeout: "\<exists>s''. step (Timeout (next_timer s)) (?s'\<lparr>clock := clock s + d\<rparr>) = Some s'' \<and>
                    (if d < 600 then page s'' = page ?s'
                     else find_in (next_eid s) (page s'') = None \<and>
                          (\<exists>b. find_in ?t (page s'') = Some b \<and> childNodes b = childNodes button))"
    for d
  proof (cases "d < 600")
    case True
    then show ?thesis by (simp add: tm find_timer_new(1) [OF assms(3)])
  next
    case False
    have "find_in (next_eid s) (hovered_page ev s) = None"
      by (rule find_absent(2) [OF fresh])
    then show ?thesis
      using False f1
      by (simp add: tm find_timer_new [OF assms(3)] rm)
  qed
  have leave: "\<exists>b. find_in ?t (page (onButtonLeave ev ?s')) = Some b \<and> get_style ''transform'' b = []"
    using f' by (simp add: onButtonLeave_def update_page_def find_update(2) get_set_style)
  have styles: "get_style ''transform'' ?b' = [Lit ''translateY(-4px)'']"
    "childNodes ?b' = childNodes button @ [?r]"
    by (simp_all add: get_set_style)
  show ?thesis
    unfolding Let_def
    by (rule exI [of _ ?b'], rule exI [of _ ?r])
      (intro conjI f' styles the_ripple_facts tm allI timeout leave)
qed

text \<open>
  A pointer at (30, 20) on the sample button: the ripple is 100 by 100 at (-30, -40), to
  be removed at time 600.
\<close>

theorem button_hover_ripple_witness:
  "find_in (event_target sample_hover) (page sample_button_state) =
     Some (Element 1 ''button'' [''btn-primary''] [] []) \<and>
   (\<exists>button' ripple.
      find_in 1 (page (onButtonHover sample_hover sample_button_state)) = Some button' \<and>
      get_style ''transform'' button' = [Lit ''translateY(-4px)''] \<and>
      childNodes button' = [ripple] \<and> eid ripple = 104 \<and>
      get_style ''width'' ripple = [Num 100, Lit ''px''] \<and>
      get_style ''height'' ripple = [Num 100, Lit ''px''] \<and>
      get_style ''left'' ripple = [Num (- 30), Lit ''px''] \<and>
      get_style ''top'' ripple = [Num (- 40), Lit ''px''] \<and>
      timers (onButtonHover sample_hover sample_button_state) =
        [\<lparr>timer_id = 1, due = 600, action = RemoveRipple 104\<rparr>])"
proof -
  have a: "find_in (event_target sample_hover) (page sample_button_state) =
     Some (Element 1 ''button'' [''btn-primary''] [] [])"
    by (simp add: sample_hover_def sample_button_state_def loaded_def html_document_def)
  have b: "list_all (\<lambda>e. eid e < next_eid sample_button_state)
     (elements_of (page sample_button_state))"
    by (simp add: sample_button_state_def loaded_def html_document_def)
  have c: "list_all (\<lambda>tm. timer_id tm < next_timer sample_button_state)
     (timers sample_button_state)"
    by (simp add: sample_button_state_def loaded_def)
  have v: "event_target sample_hover = 1" "clientX sample_hover = 30" "clientY sample_hover = 20"
    "layout sample_button_state 1 =
       \<lparr>rect_left = 10, rect_top = 10, rect_width = 100, rect_height = 40\<rparr>"
    "next_eid sample_button_state = 104" "next_timer sample_button_state = 1"
    "clock sample_button_state = 0" "timers sample_button_state = []"
    by (simp_all add: sample_hover_def sample_button_state_def loaded_def html_document_def)
  from button_hover_ripple [OF a b c] obtain button' ripple where
    "find_in 1 (page (onButtonHover sample_hover sample_button_state)) = Some button'"
    "get_style ''transform'' button' = [Lit ''translateY(-4px)'']"
    "childNodes button' = [ripple]" "eid ripple = 104"
    "get_style ''width'' ripple = [Num 100, Lit ''px'']"
    "get_style ''height'' ripple = [Num 100, Lit ''px'']"
    "get_style ''left'' ripple = [Num (- 30), Lit ''px'']"
    "get_style ''top'' ripple = [Num (- 40), Lit ''px'']"
    "timers (onButtonHover sample_hover sample_button_state) =
        [\<lparr>timer_id = 1, due = 600, action = RemoveRipple 104\<rparr>]"
    unfolding Let_def v by auto
  then show ?thesis using a by blast
qed

section \<open>Scroll-triggered reveal\<close>

lemma same_page_refl: "same_page s s"
  by (simp add: same_page_def)

lemma same_page_trans: "same_page s s1 \<Longrightarrow> same_page s1 s2 \<Longrightarrow> same_page s s2"
  by (simp add: same_page_def)

lemma same_page_fold:
  assumes "\<And>x s. same_page s (f x s)"
  shows "same_page s (fold f xs s)"
proof (induction xs arbitrary: s)
  case Nil
  show ?case by (simp add: same_page_refl)
next
  case (Cons x xs)
  show ?case using assms [of s x] Cons [of "f x s"] by (auto intro: same_page_trans)
qed

lemma same_page_update_overlay: "same_page s (update_overlay i f s)"
  by (simp add: same_page_def update_overlay_def)

lemma same_page_addShape: "same_page s (addShape c s)"
  by (simp add: addShape_def createElement_def random_def update_overlay_def same_page_def Let_def)

lemma same_page_createFloatingShapes:
  "createFloatingShapes s = Some s' \<Longrightarrow> same_page s s'"
  using same_page_fold [of "\<lambda>i. addShape c" for c, OF same_page_addShape]
  by (auto simp: createFloatingShapes_def split: option.splits)

lemma same_page_createParticle: "createParticle s = Some s' \<Longrightarrow> same_page s s'"
  by (auto simp: createParticle_def createElement_def random_def same_page_def Let_def
      split: option.splits)

lemma same_page_onParticleAnimationEnd:
  "onParticleAnimationEnd p s = Some s' \<Longrightarrow> same_page s s'"
  unfolding onParticleAnimationEnd_def
  by (drule same_page_createParticle) (simp add: same_page_def)

lemma same_page_connect: "same_page s (connect k a c s)"
  by (simp add: connect_def createElement_def random_def update_overlay_def same_page_def Let_def)

lemma same_page_createNeuralConnections: "same_page s (createNeuralConnections k s)"
  unfolding createNeuralConnections_def
proof (rule same_page_fold)
  fix x :: "nat \<times> neural_node" and s
  obtain i a where x: "x = (i, a)" by (cases x)
  show "same_page s
     ((\<lambda>(index, node) s'. fold (connect k node) (drop (index + 1) (neuralNodes s')) s') x s)"
    unfolding x by simp (rule same_page_fold, rule same_page_connect)
qed

lemma same_page_addNode: "same_page s (addNode k s)"
  by (simp add: addNode_def createElement_def random_def update_overlay_def same_page_def Let_def)

lemma same_page_createNeuralNetwork:
  assumes "createNeuralNetwork s = Some s'"
  shows "same_page s s'"
proof -
  from assms obtain k where
    s': "s' = createNeuralConnections k (fold (\<lambda>i. addNode k) [0..<nodeCount s] s)"
    by (auto simp: createNeuralNetwork_def split: option.splits)
  have "same_page s (fold (\<lambda>i. addNode k) [0..<nodeCount s] s)"
    by (rule same_page_fold) (rule same_page_addNode)
  then show ?thesis
    unfolding s' using same_page_createNeuralConnections by (rule same_page_trans)
qed

lemma same_page_handleResize:
  assumes "handleResize s = Some s'"
  shows "same_page s s'"
proof -
  from assms obtain bg c s1 bg1 c1 where
    a: "createFloatingShapes (update_overlay (eid c) clear_children s) = Some s1"
      "createNeuralNetwork ((update_overlay (eid c1) clear_children s1)\<lparr>neuralNodes := []\<rparr>) = Some s'"
    by (auto simp: handleResize_def split: option.splits)
  have "same_page s s1"
    using same_page_update_overlay same_page_createFloatingShapes [OF a(1)]
    by (rule same_page_trans)
  moreover have "same_page s1 ((update_overlay (eid c1) clear_children s1)\<lparr>neuralNodes := []\<rparr>)"
    by (simp add: same_page_def update_overlay_def)
  ultimately show ?thesis
    using same_page_createNeuralNetwork [OF a(2)] by (blast intro: same_page_trans)
qed

lemma same_page_run_frame: "same_page s (run_frame t s)"
  unfolding run_frame_def
  by (rule same_page_fold) (simp add: same_page_def animate_eq)

lemma same_page_destroy: "same_page s (destroy s)"
  by (simp add: destroy_def cancelAnimationFrame_def same_page_def Let_def split: option.splits)

lemma marked_Cons:
  "marked c j (e # es) = (marked c j [e] \<or> marked c j es)"
  by (simp add: marked_def)

lemma marked_Nil [simp]: "\<not> marked c j []"
  by (simp add: marked_def)

lemma marked_single:
  "marked c j [Element i t cl st ch] = ((i = j \<and> c \<in> set cl) \<or> marked c j ch)"
  by (simp add: marked_def contains_def)

lemma marked_single':
  "marked c j [e] = ((eid e = j \<and> contains c e) \<or> marked c j (childNodes e))"
  by (cases e) (simp add: marked_single contains_def)

lemma elements_of_append: "elements_of (xs @ ys) = elements_of xs @ elements_of ys"
  by (induction xs) auto

lemma marked_append: "marked c j (xs @ ys) = (marked c j xs \<or> marked c j ys)"
  by (simp add: marked_def elements_of_append)

lemma marked_update:
  assumes "\<And>e. eid e = t \<Longrightarrow> marked c j [f e] \<Longrightarrow> marked c j [e] \<or> Q"
  shows "marked c j [update_element t f e] \<Longrightarrow> marked c j [e] \<or> Q"
    and "marked c j (map (update_element t f) es) \<Longrightarrow> marked c j es \<or> Q"
proof (induction e and es rule: descendants_elements_of.induct)
  case (1 i u cl st ch)
  show ?case
  proof (cases "t = i")
    case True
    then show ?thesis using 1(2) assms [of "Element i u cl st ch"] by simp
  next
    case False
    then show ?thesis using 1 by (auto simp: marked_single)
  qed
next
  case 2
  then show ?case by simp
next
  case (3 e es)
  then show ?case
    using marked_Cons [of c j "update_element t f e" "map (update_element t f) es"]
      marked_Cons [of c j e es]
    by auto
qed

lemma marked_remove:
  shows "marked c j [remove_element i e] \<Longrightarrow> marked c j [e]"
    and "marked c j (map (remove_element i) (filter (\<lambda>x. eid x \<noteq> i) es)) \<Longrightarrow> marked c j es"
proof (induction e and es rule: descendants_elements_of.induct)
  case (1 k u cl st ch)
  then show ?case by (auto simp: marked_single)
next
  case 2
  then show ?case by simp
next
  case (3 e es)
  show ?case
  proof (cases "eid e = i")
    case True
    then show ?thesis using 3 marked_Cons [of c j e es] by simp
  next
    case False
    then show ?thesis
      using 3 marked_Cons [of c j e es]
        marked_Cons [of c j "remove_element i e"
          "map (remove_element i) (filter (\<lambda>x. eid x \<noteq> i) es)"]
      by auto
  qed
qed

lemma marked_attributes:
  assumes "eid (f e) = eid e" "classList (f e) = classList e" "childNodes (f e) = childNodes e"
  shows "marked c j [f e] = marked c j [e]"
  by (simp add: marked_single' assms contains_def)

lemma marked_set_style: "marked c j [set_style p v e] = marked c j [e]"
  by (rule marked_attributes) simp_all

lemma marked_classList_add:
  "marked c j [classList_add c' e] \<Longrightarrow> marked c j [e] \<or> (eid e = j \<and> c = c')"
  by (cases e) (auto simp: classList_add_def marked_single split: if_splits)

lemma marked_appendChild:
  "classList r = [] \<Longrightarrow> childNodes r = [] \<Longrightarrow> marked c j [appendChild r e] = marked c j [e]"
  by (cases e; cases r) (auto simp: appendChild_def marked_single marked_append)

lemma revealed_same_page: "same_page s s' \<Longrightarrow> revealed j s' = revealed j s"
  by (simp add: same_page_def revealed_def)

lemma revealed_update_page:
  assumes "\<And>e. marked ''in-view'' j [f e] \<Longrightarrow> marked ''in-view'' j [e]"
  shows "revealed j (update_page t f s) \<Longrightarrow> revealed j s"
  unfolding revealed_def update_page_def
  using marked_update(2) [of t "''in-view''" j f False "page s"] assms by simp

lemma marked_hovered_page:
  "marked c j (hovered_page ev s) \<Longrightarrow> marked c j (page s)"
proof -
  let ?t = "event_target ev"
  let ?p1 = "map (update_element ?t (set_style ''transform'' [Lit ''translateY(-4px)''])) (page s)"
  let ?p2 = "map (update_element ?t (set_style ''position'' [Lit ''relative''])) ?p1"
  assume "marked c j (hovered_page ev s)"
  then have "marked c j ?p2"
    unfolding hovered_page_def
    using marked_update(2) [of ?t c j "set_style ''overflow'' [Lit ''hidden'']" False ?p2]
    by (simp add: marked_set_style del: map_map)
  then have "marked c j ?p1"
    using marked_update(2) [of ?t c j "set_style ''position'' [Lit ''relative'']" False ?p1]
    by (simp add: marked_set_style del: map_map)
  then show "marked c j (page s)"
    using marked_update(2) [of ?t c j "set_style ''transform'' [Lit ''translateY(-4px)'']" False "page s"]
    by (simp add: marked_set_style del: map_map)
qed

lemma revealed_onButtonHover: "revealed j (onButtonHover ev s) \<Longrightarrow> revealed j s"
proof -
  have r: "classList (the_ripple ev s) = []" "childNodes (the_ripple ev s) = []"
    by (simp_all add: the_ripple_def Let_def)
  assume "revealed j (onButtonHover ev s)"
  then have "marked ''in-view'' j
     (map (update_element (event_target ev) (appendChild (the_ripple ev s))) (hovered_page ev s))"
    by (simp add: revealed_def onButtonHover_eq)
  then have "marked ''in-view'' j (hovered_page ev s)"
    using marked_update(2) [of "event_target ev" "''in-view''" j "appendChild (the_ripple ev s)"
        False "hovered_page ev s"]
    by (simp add: marked_appendChild [OF r])
  then show ?thesis unfolding revealed_def by (rule marked_hovered_page)
qed

lemma marked_onCardMouseMove: "marked c j [onCardMouseMove e] = marked c j [e]"
  by (rule marked_attributes) (simp_all add: onCardMouseMove_def Let_def)

lemma marked_onCardMouseLeave: "marked c j [onCardMouseLeave e] = marked c j [e]"
  by (rule marked_attributes) (simp_all add: onCardMouseLeave_def)

lemma onResize_timers:
  "page (onResize s) = page s" "clock (onResize s) = clock s"
  "tm \<in> set (timers (onResize s)) \<Longrightarrow> action tm = AddInView j \<Longrightarrow> tm \<in> set (timers s)"
  by (auto simp: onResize_def clearTimeout_def setTimeout_def Let_def split: option.splits)

lemma reveal_step_same_page: "same_page s s' \<Longrightarrow> reveal_step s s'"
  by (simp add: reveal_step_def same_page_def revealed_def)

lemma reveal_stepI:
  assumes "clock s \<le> clock s'"
    and "\<And>tm k. tm \<in> set (timers s') \<Longrightarrow> action tm = AddInView k \<Longrightarrow> tm \<in> set (timers s)"
    and "\<And>j. revealed j s' \<Longrightarrow> revealed j s"
  shows "reveal_step s s'"
  unfolding reveal_step_def using assms by blast

lemma reveal_step_AnimationEnd:
  assumes "step (AnimationEnd p) s = Some s'"
  shows "reveal_step s s'"
proof (cases "p \<in> set (map eid (rendered_particles s))")
  case True
  then have "onParticleAnimationEnd p s = Some s'" using assms by simp
  then show ?thesis by (intro reveal_step_same_page same_page_onParticleAnimationEnd)
next
  case False
  then have "s' = s" using assms by simp
  then show ?thesis by (simp add: reveal_step_same_page same_page_refl)
qed

lemma reveal_step_Resize:
  assumes "step (Resize w) s = Some s'"
  shows "reveal_step s s'"
proof -
  have s': "s' = onResize (s\<lparr>innerWidth := w\<rparr>)" using assms by simp
  show ?thesis
  proof (rule reveal_stepI)
    show "clock s \<le> clock s'" by (simp add: s' onResize_timers(2))
    show "tm \<in> set (timers s)" if "tm \<in> set (timers s')" "action tm = AddInView k" for tm k
      using onResize_timers(3) [of tm "s\<lparr>innerWidth := w\<rparr>" k] that by (simp add: s')
    show "revealed j s" if "revealed j s'" for j
      using that by (simp add: s' revealed_def onResize_timers(1))
  qed
qed

lemma reveal_step_Elapse:
  assumes "step (Elapse d) s = Some s'"
  shows "reveal_step s s'"
proof -
  have s': "s' = s\<lparr>clock := clock s + d\<rparr>" using assms by simp
  show ?thesis by (rule reveal_stepI) (simp_all add: s' revealed_def)
qed

lemma reveal_step_callback:
  assumes "run_callback (action tm0) (s\<lparr>timers := filter P (timers s)\<rparr>) = Some s'"
    and "tm0 \<in> set (timers s)" "due tm0 \<le> clock s"
  shows "reveal_step s s'"
proof (cases "action tm0")
  case (AddInView t)
  let ?s0 = "s\<lparr>timers := filter P (timers s)\<rparr>"
  have s': "s' = update_page t (classList_add ''in-view'') ?s0" using assms(1) AddInView by simp
  have pg: "page s' = map (update_element t (classList_add ''in-view'')) (page s)"
    by (simp add: s' update_page_def)
  have r: "revealed j s \<or> t = j" if "revealed j s'" for j
  proof -
    have "marked ''in-view'' j (map (update_element t (classList_add ''in-view'')) (page s))"
      using that by (simp add: revealed_def pg)
    then have "marked ''in-view'' j (page s) \<or> t = j"
    proof (rule marked_update(2) [rotated])
      fix e
      assume "eid e = t" "marked ''in-view'' j [classList_add ''in-view'' e]"
      then show "marked ''in-view'' j [e] \<or> t = j"
        using marked_classList_add [of "''in-view''" j "''in-view''" e] by auto
    qed
    then show ?thesis by (simp add: revealed_def)
  qed
  show ?thesis
    unfolding reveal_step_def
  proof (intro conjI allI impI)
    show "clock s \<le> clock s'" by (simp add: s' update_page_def)
    show "tm \<in> set (timers s)" if "tm \<in> set (timers s')" for tm
      using that by (simp add: s' update_page_def)
    show "revealed j s \<or> (\<exists>tm\<in>set (timers s). action tm = AddInView j \<and> due tm \<le> clock s)"
      if "revealed j s'" for j
      using r [OF that] assms(2,3) AddInView by blast
  qed
next
  case (RemoveRipple r)
  let ?s0 = "s\<lparr>timers := filter P (timers s)\<rparr>"
  have s': "s' = ?s0\<lparr>page := remove_from r (page s)\<rparr>" using assms(1) RemoveRipple by simp
  show ?thesis
  proof (rule reveal_stepI)
    show "clock s \<le> clock s'" by (simp add: s')
    show "tm \<in> set (timers s)" if "tm \<in> set (timers s')" for tm
      using that by (simp add: s')
    show "revealed j s" if "revealed j s'" for j
      using that marked_remove(2) [of "''in-view''" j r "page s"]
      by (simp add: s' revealed_def remove_from_def)
  qed
next
  case CallHandleResize
  let ?s0 = "s\<lparr>timers := filter P (timers s)\<rparr>"
  have sp: "same_page ?s0 s'" using assms(1) CallHandleResize by (simp add: same_page_handleResize)
  show ?thesis
  proof (rule reveal_stepI)
    show "clock s \<le> clock s'" using sp by (simp add: same_page_def)
    show "tm \<in> set (timers s)" if "tm \<in> set (timers s')" for tm
      using that sp by (simp add: same_page_def)
    show "revealed j s" if "revealed j s'" for j
      using that sp by (simp add: same_page_def revealed_def)
  qed
qed

lemma reveal_step_Timeout:
  assumes "step (Timeout i) s = Some s'"
  shows "reveal_step s s'"
proof (cases "find (\<lambda>tm. timer_id tm = i) (timers s)")
  case None
  then have "s' = s" using assms by simp
  then show ?thesis by (simp add: reveal_step_same_page same_page_refl)
next
  case (Some tm0)
  then have in0: "tm0 \<in> set (timers s)" by (auto simp: find_Some_iff)
  show ?thesis
  proof (cases "due tm0 \<le> clock s")
    case False
    then have "s' = s" using assms Some by simp
    then show ?thesis by (simp add: reveal_step_same_page same_page_refl)
  next
    case True
    have "run_callback (action tm0)
        (s\<lparr>timers := filter (\<lambda>tm'. timer_id tm' \<noteq> i) (timers s)\<rparr>) = Some s'"
      using assms Some True by simp
    then show ?thesis using in0 True by (rule reveal_step_callback)
  qed
qed

lemma reveal_step_MouseEnter:
  assumes "step (MouseEnter e) s = Some s'"
  shows "reveal_step s s'"
proof -
  let ?s1 = "if event_target e \<in> set (button_listeners s) then onButtonHover e s else s"
  have s': "s' = (if event_target e \<in> set (card_listeners s)
               then update_page (event_target e) onCardMouseMove ?s1 else ?s1)"
    using assms by (simp add: Let_def)
  have r1: "revealed j s" if "revealed j ?s1" for j
    using that by (cases "event_target e \<in> set (button_listeners s)")
      (simp_all add: revealed_onButtonHover)
  have r2: "revealed j ?s1" if "revealed j s'" for j
  proof (cases "event_target e \<in> set (card_listeners s)")
    case True
    then have "revealed j (update_page (event_target e) onCardMouseMove ?s1)"
      using that s' by simp
    then show ?thesis by (rule revealed_update_page [rotated]) (simp add: marked_onCardMouseMove)
  next
    case False
    then show ?thesis using that s' by simp
  qed
  have t1: "tm \<in> set (timers s)" if "tm \<in> set (timers ?s1)" "action tm = AddInView k" for tm k
    using that by (cases "event_target e \<in> set (button_listeners s)")
      (auto simp: onButtonHover_eq)
  have t2: "timers s' = timers ?s1" by (simp add: s' update_page_def)
  have c: "clock s' = clock s" by (simp add: s' update_page_def onButtonHover_eq)
  show ?thesis
  proof (rule reveal_stepI)
    show "clock s \<le> clock s'" by (simp add: c)
    show "tm \<in> set (timers s)" if "tm \<in> set (timers s')" "action tm = AddInView k" for tm k
      using that t1 unfolding t2 by blast
    show "revealed j s" if "revealed j s'" for j
      using r1 [OF r2 [OF that]] .
  qed
qed

lemma reveal_step_MouseLeave:
  assumes "step (MouseLeave e) s = Some s'"
  shows "reveal_step s s'"
proof -
  let ?s1 = "if event_target e \<in> set (button_listeners s) then onButtonLeave e s else s"
  have s': "s' = (if event_target e \<in> set (card_listeners s)
               then update_page (event_target e) onCardMouseLeave ?s1 else ?s1)"
    using assms by (simp add: Let_def)
  have r1: "revealed j s" if "revealed j ?s1" for j
  proof (cases "event_target e \<in> set (button_listeners s)")
    case True
    then have "revealed j (update_page (event_target e) (set_style ''transform'' []) s)"
      using that by (simp add: onButtonLeave_def)
    then show ?thesis by (rule revealed_update_page [rotated]) (simp add: marked_set_style)
  next
    case False
    then show ?thesis using that by simp
  qed
  have r2: "revealed j ?s1" if "revealed j s'" for j
  proof (cases "event_target e \<in> set (card_listeners s)")
    case True
    then have "revealed j (update_page (event_target e) onCardMouseLeave ?s1)"
      using that s' by simp
    then show ?thesis by (rule revealed_update_page [rotated]) (simp add: marked_onCardMouseLeave)
  next
    case False
    then show ?thesis using that s' by simp
  qed
  have t2: "timers s' = timers s" "clock s' = clock s"
    by (simp_all add: s' update_page_def onButtonLeave_def)
  show ?thesis
  proof (rule reveal_stepI)
    show "clock s \<le> clock s'" by (simp add: t2)
    show "tm \<in> set (timers s)" if "tm \<in> set (timers s')" for tm
      using that by (simp add: t2)
    show "revealed j s" if "revealed j s'" for j
      using r1 [OF r2 [OF that]] .
  qed
qed

lemma step_reveal:
  assumes "step ev s = Some s'" "\<And>es. ev \<noteq> Intersection es"
  shows "reveal_step s s'"
proof (cases ev)
  case (AnimationEnd p)
  then show ?thesis using assms(1) reveal_step_AnimationEnd by blast
next
  case (Resize w)
  then show ?thesis using assms(1) reveal_step_Resize by blast
next
  case (Elapse d)
  then show ?thesis using assms(1) reveal_step_Elapse by blast
next
  case (Timeout i)
  then show ?thesis using assms(1) reveal_step_Timeout by blast
next
  case (AnimationFrame t)
  then have "s' = run_frame t s" using assms(1) by simp
  then show ?thesis by (simp add: reveal_step_same_page same_page_run_frame)
next
  case (Intersection es)
  then show ?thesis using assms(2) by simp
next
  case (MouseEnter e)
  then show ?thesis using assms(1) reveal_step_MouseEnter by blast
next
  case (MouseLeave e)
  then show ?thesis using assms(1) reveal_step_MouseLeave by blast
next
  case Destroy
  then have "s' = destroy s" using assms(1) by simp
  then show ?thesis by (simp add: reveal_step_same_page same_page_destroy)
qed

section \<open>Scripted elements and the skeleton\<close>

lemma eid_skeleton [simp]: "eid (skeleton b e) = eid e"
  by (cases e) simp

lemma matches_skeleton:
  "matches containers (skeleton b e) = matches containers e"
  "matches fade_in (skeleton b e) = matches fade_in e"
  by (cases e; auto simp: matches_def containers_def fade_in_def contains_def)+

lemma scripted_inert:
  "scripted b e \<Longrightarrow> \<not> matches containers e \<and> \<not> matches fade_in e \<and> b \<le> eid e"
  by (cases e) (auto simp: matches_def containers_def fade_in_def contains_def inert_def)

lemma scripted_elements:
  shows "scripted b e \<Longrightarrow> list_all (scripted b) (e # descendants e)"
    and "all_scripted b es \<Longrightarrow> list_all (scripted b) (elements_of es)"
proof (induction e and es rule: descendants_elements_of.induct)
  case (1 i t cl st ch)
  then show ?case by simp
next
  case 2
  show ?case by simp
next
  case (3 c cs)
  then show ?case by simp
qed

lemma clean_scripted:
  shows "scripted b e \<Longrightarrow> clean b e"
    and "all_scripted b es \<Longrightarrow> all_clean b es"
proof (induction e and es rule: descendants_elements_of.induct)
  case (1 i t cl st ch)
  then show ?case by simp
next
  case 2
  show ?case by simp
next
  case (3 c cs)
  then show ?case by simp
qed

lemma clean_elements:
  shows "clean b e \<Longrightarrow> list_all (\<lambda>x. b \<le> eid x \<longrightarrow> scripted b x) (e # descendants e)"
    and "all_clean b es \<Longrightarrow> list_all (\<lambda>x. b \<le> eid x \<longrightarrow> scripted b x) (elements_of es)"
proof (induction e and es rule: descendants_elements_of.induct)
  case (1 i t cl st ch)
  show ?case
  proof (cases "b \<le> i")
    case True
    then have s: "scripted b (Element i t cl st ch)" using 1(2) by simp
    from scripted_elements(1) [OF s] show ?thesis by (simp add: list_all_iff)
  next
    case False
    then show ?thesis using 1 by simp
  qed
next
  case 2
  show ?case by simp
next
  case (3 c cs)
  then show ?case by simp
qed

lemma clean_child:
  "clean b e \<Longrightarrow> all_clean b (childNodes e)"
  by (cases e) (auto simp: clean_scripted(2) split: if_splits)

lemma scripted_below:
  shows "scripted b e \<Longrightarrow> filter (\<lambda>x. eid x < b) (e # descendants e) = []"
    and "all_scripted b es \<Longrightarrow> filter (\<lambda>x. eid x < b) (elements_of es) = []"
proof (induction e and es rule: descendants_elements_of.induct)
  case (1 i t cl st ch)
  then show ?case by simp
next
  case 2
  show ?case by simp
next
  case (3 c cs)
  then show ?case by (auto split: if_splits)
qed

text \<open>The elements of the skeleton are the skeletons of the elements below \<open>b\<close>.\<close>

lemma skeleton_elements:
  shows "clean b e \<Longrightarrow>
         descendants (skeleton b e) = map (skeleton b) (filter (\<lambda>x. eid x < b) (descendants e))"
    and "all_clean b es \<Longrightarrow>
         elements_of (skeletons b es) = map (skeleton b) (filter (\<lambda>x. eid x < b) (elements_of es))"
proof (induction e and es rule: descendants_elements_of.induct)
  case (1 i t cl st ch)
  show ?case
  proof (cases "b \<le> i")
    case True
    then have "all_scripted b ch" using 1(2) by simp
    then have "filter (\<lambda>x. eid x < b) (elements_of ch) = []" "all_clean b ch"
      by (simp_all add: scripted_below(2) clean_scripted(2))
    then show ?thesis using 1(1) by simp
  next
    case False
    then show ?thesis using 1 by simp
  qed
next
  case 2
  show ?case by simp
next
  case (3 c cs)
  show ?case
  proof (cases "b \<le> eid c")
    case True
    then have "scripted b c" using 3(3) by (cases c) simp
    then have "filter (\<lambda>x. eid x < b) (c # descendants c) = []" by (rule scripted_below(1))
    then show ?thesis using 3 True by simp
  next
    case False
    then show ?thesis using 3 by simp
  qed
qed

lemma filter_below_fade:
  assumes "list_all (\<lambda>x. b \<le> eid x \<longrightarrow> scripted b x) xs"
  shows "filter (matches fade_in) (filter (\<lambda>x. eid x < b) xs) = filter (matches fade_in) xs"
  using assms
proof (induction xs)
  case Nil
  show ?case by simp
next
  case (Cons x xs)
  then show ?case using scripted_inert [of b x] by (cases "eid x < b") auto
qed

lemma fade_ids_skeleton:
  assumes "clean b c"
  shows "fade_ids (skeleton b c) = fade_ids c"
proof -
  have d: "list_all (\<lambda>x. b \<le> eid x \<longrightarrow> scripted b x) (descendants c)"
    using clean_elements(1) [OF assms] by simp
  have "map eid (filter (matches fade_in) (map (skeleton b) (filter (\<lambda>x. eid x < b) (descendants c)))) =
        map eid (filter (matches fade_in) (filter (\<lambda>x. eid x < b) (descendants c)))"
    by (simp add: filter_map comp_def matches_skeleton)
  then show ?thesis
    unfolding fade_ids_def querySelectorAll_def skeleton_elements(1) [OF assms]
      filter_below_fade [OF d] .
qed

lemma descendants_elements:
  shows "x \<in> set (descendants e) \<Longrightarrow> set (descendants x) \<subseteq> set (descendants e)"
    and "x \<in> set (elements_of es) \<Longrightarrow> set (descendants x) \<subseteq> set (elements_of es)"
proof (induction e and es rule: descendants_elements_of.induct)
  case (1 i t cl st ch)
  then show ?case by simp
next
  case 2
  then show ?case by simp
next
  case (3 c cs)
  then show ?case by auto
qed

lemma clean_members:
  shows "clean b e \<Longrightarrow> x \<in> set (e # descendants e) \<Longrightarrow> clean b x"
    and "all_clean b es \<Longrightarrow> x \<in> set (elements_of es) \<Longrightarrow> clean b x"
proof (induction e and es rule: descendants_elements_of.induct)
  case (1 i t cl st ch)
  show ?case
  proof (cases "x = Element i t cl st ch")
    case True
    then show ?thesis using 1(2) by simp
  next
    case False
    then have "x \<in> set (elements_of ch)" using 1(3) by simp
    moreover have "all_clean b ch" using 1(2) by (auto simp: clean_scripted(2) split: if_splits)
    ultimately show ?thesis using 1(1) by blast
  qed
next
  case 2
  then show ?case by simp
next
  case (3 c cs)
  then show ?case by auto
qed

lemmas clean_member = clean_members(2)

text \<open>Holding back is a property of the skeleton.\<close>

lemma held_back_skeleton:
  assumes "all_clean b es"
  shows "held_back j i (skeletons b es) = held_back j i es"
proof -
  let ?P = "\<lambda>c. matches containers c \<longrightarrow> j \<notin> set (take i (fade_ids c))"
  have p: "(eid x < b \<longrightarrow> ?P (skeleton b x)) = ?P x" if x: "x \<in> set (elements_of es)" for x
  proof -
    have c: "clean b x" using assms x by (rule clean_member)
    show ?thesis
    proof (cases "eid x < b")
      case True
      then show ?thesis by (simp add: matches_skeleton fade_ids_skeleton [OF c])
    next
      case False
      then have "scripted b x" using c by (cases x) simp
      then show ?thesis using False scripted_inert [of b x] by simp
    qed
  qed
  have "list_all ?P (map (skeleton b) (filter (\<lambda>x. eid x < b) (elements_of es))) =
        list_all ?P (elements_of es)"
    unfolding list_all_iff using p by auto
  then show ?thesis
    unfolding held_back_def skeleton_elements(2) [OF assms] .
qed

section \<open>Paths and the closest container\<close>

lemma path_absent:
  shows "list_all (\<lambda>x. eid x \<noteq> t) (e # descendants e) \<Longrightarrow> path_to t e = []"
    and "list_all (\<lambda>x. eid x \<noteq> t) (elements_of es) \<Longrightarrow> path_in t es = []"
proof (induction t e and t es rule: path_to_path_in.induct)
  case (1 i j t cl st ch)
  then show ?case by simp
next
  case (2 i)
  show ?case by simp
next
  case (3 i c cs)
  then show ?case by simp
qed

lemma path_members:
  shows "set (path_to t e) \<subseteq> set (e # descendants e)"
    and "set (path_in t es) \<subseteq> set (elements_of es)"
proof (induction t e and t es rule: path_to_path_in.induct)
  case (1 i j t cl st ch)
  show ?case
  proof (cases "i = j")
    case True
    then show ?thesis by simp
  next
    case False
    show ?thesis
    proof (cases "path_in i ch")
      case Nil
      then show ?thesis by simp
    next
      case (Cons p ps)
      then have "set (p # ps) \<subseteq> set (elements_of ch)" using 1 False by simp
      then show ?thesis using Cons by auto
    qed
  qed
next
  case (2 i)
  show ?case by simp
next
  case (3 i c cs)
  show ?case
  proof (cases "path_to i c")
    case Nil
    then show ?thesis using 3 by auto
  next
    case (Cons p ps)
    then have "set (p # ps) \<subseteq> set (c # descendants c)" using 3(1) by simp
    then show ?thesis using Cons by auto
  qed
qed

lemma closest_member:
  assumes "closest sels t roots = Some c"
  shows "c \<in> set (elements_of roots)" "matches sels c"
proof -
  from assms have f: "find (matches sels) (rev (path_in t roots)) = Some c"
    by (simp add: closest_def)
  then have "c \<in> set (rev (path_in t roots))" "matches sels c"
    using find_Some_iff [of "matches sels" "rev (path_in t roots)" c] nth_mem
    by (metis length_rev, blast)
  then show "c \<in> set (elements_of roots)" "matches sels c"
    using path_members(2) [of t roots] by auto
qed

lemma scripted_ids:
  assumes "scripted b e" "t < b"
  shows "list_all (\<lambda>x. eid x \<noteq> t) (e # descendants e)"
proof -
  have "list_all (scripted b) (e # descendants e)" using assms(1) by (rule scripted_elements(1))
  then have "\<And>x. x \<in> set (e # descendants e) \<Longrightarrow> b \<le> eid x"
    using scripted_inert [of b] by (auto simp: list_all_iff)
  then have "\<And>x. x \<in> set (e # descendants e) \<Longrightarrow> eid x \<noteq> t"
    using assms(2) by fastforce
  then show ?thesis unfolding list_all_iff by blast
qed

lemma skeletons_scripted:
  shows "scripted b e \<Longrightarrow> skeletons b [e] = []"
    and "all_scripted b es \<Longrightarrow> skeletons b es = []"
proof (induction e and es rule: descendants_elements_of.induct)
  case (1 i t cl st ch)
  then show ?case by simp
next
  case 2
  show ?case by simp
next
  case (3 c cs)
  then show ?case by (cases c) simp
qed

text \<open>The path to an element below \<open>b\<close> is a path of the skeleton.\<close>

lemma path_skeleton:
  shows "t < b \<Longrightarrow> clean b e \<Longrightarrow> path_to t (skeleton b e) = map (skeleton b) (path_to t e)"
    and "t < b \<Longrightarrow> all_clean b es \<Longrightarrow>
         path_in t (skeletons b es) = map (skeleton b) (path_in t es)"
proof (induction t e and t es rule: path_to_path_in.induct)
  case (1 i j u cl st ch)
  show ?case
  proof (cases "i = j")
    case True
    then show ?thesis by simp
  next
    case False
    have c: "all_clean b ch" using 1(3) by (auto simp: clean_scripted(2) split: if_splits)
    have "path_in i (skeletons b ch) = map (skeleton b) (path_in i ch)"
      using 1(1) [OF False 1(2) c] .
    then show ?thesis using False by (simp split: list.splits)
  qed
next
  case (2 i)
  show ?case by simp
next
  case (3 i c cs)
  have cc: "clean b c" and cs: "all_clean b cs" using 3(4) by simp_all
  show ?case
  proof (cases "b \<le> eid c")
    case True
    then have "scripted b c" using cc by (cases c) simp
    then have "list_all (\<lambda>x. eid x \<noteq> i) (c # descendants c)" using 3(3) by (rule scripted_ids)
    then have p: "path_to i c = []" by (rule path_absent(1))
    have "path_in i (skeletons b cs) = map (skeleton b) (path_in i cs)"
      using 3(2) [OF p 3(3) cs] .
    then show ?thesis using True p by simp
  next
    case False
    have p: "path_to i (skeleton b c) = map (skeleton b) (path_to i c)"
      using 3(1) [OF 3(3) cc] .
    show ?thesis
    proof (cases "path_to i c")
      case Nil
      have "path_in i (skeletons b cs) = map (skeleton b) (path_in i cs)"
        using 3(2) [OF Nil 3(3) cs] .
      then show ?thesis using False p Nil by simp
    next
      case (Cons x xs)
      then show ?thesis using False p by simp
    qed
  qed
qed

lemma find_map_skeleton:
  assumes "\<And>x. P (skeleton b x) = P x"
  shows "find P (map (skeleton b) xs) = map_option (skeleton b) (find P xs)"
  by (induction xs) (simp_all add: assms)

lemma closest_skeleton:
  assumes "t < b" "all_clean b roots"
  shows "closest containers t (skeletons b roots) =
         map_option (skeleton b) (closest containers t roots)"
  unfolding closest_def path_skeleton(2) [OF assms]
  by (simp add: rev_map find_map_skeleton matches_skeleton)

section \<open>The document and the page\<close>

lemma scripted_insertFirst:
  "scripted b bg \<Longrightarrow> scripted b c \<Longrightarrow> scripted b (insertFirst bg c)"
  by (cases c) (simp add: insertFirst_def)

lemma eid_insertFirst [simp]: "eid (insertFirst bg c) = eid c"
  by (cases c) (simp add: insertFirst_def)

lemma clean_insertFirst:
  "scripted b bg \<Longrightarrow> clean b c \<Longrightarrow> clean b (insertFirst bg c)"
  by (cases c) (simp add: insertFirst_def clean_scripted(1))

lemma skeleton_insertFirst:
  "b \<le> eid bg \<Longrightarrow> skeleton b (insertFirst bg c) = skeleton b c"
  by (cases c) (simp add: insertFirst_def)

lemma into_body_facts:
  assumes "scripted b bg"
  shows "all_clean b ch \<Longrightarrow> all_clean b (into_body bg ch)"
    and "all_scripted b ch \<Longrightarrow> all_scripted b (into_body bg ch)"
    and "skeletons b (into_body bg ch) = skeletons b ch"
proof -
  have e: "b \<le> eid bg" using assms scripted_inert by blast
  show "all_clean b ch \<Longrightarrow> all_clean b (into_body bg ch)"
    by (induction ch) (simp_all add: clean_insertFirst [OF assms])
  show "all_scripted b ch \<Longrightarrow> all_scripted b (into_body bg ch)"
    by (induction ch) (simp_all add: scripted_insertFirst [OF assms])
  show "skeletons b (into_body bg ch) = skeletons b ch"
    by (induction ch) (simp_all add: skeleton_insertFirst [OF e])
qed

lemma with_overlay_facts:
  assumes "scripted b bg"
  shows "all_clean b roots \<Longrightarrow> all_clean b (with_overlay bg roots)"
    and "skeletons b (with_overlay bg roots) = skeletons b roots"
proof -
  show "all_clean b roots \<Longrightarrow> all_clean b (with_overlay bg roots)"
  proof (cases roots)
    case Nil
    then show ?thesis by (simp add: with_overlay_def)
  next
    case (Cons h rest)
    assume c: "all_clean b roots"
    obtain i t cl st ch where h: "h = Element i t cl st ch" by (cases h)
    show ?thesis
      using c Cons h into_body_facts(1,2) [OF assms, of ch]
      by (auto simp: with_overlay_def clean_scripted(2) split: if_splits)
  qed
  show "skeletons b (with_overlay bg roots) = skeletons b roots"
  proof (cases roots)
    case Nil
    then show ?thesis by (simp add: with_overlay_def)
  next
    case (Cons h rest)
    obtain i t cl st ch where h: "h = Element i t cl st ch" by (cases h)
    show ?thesis
      using Cons h into_body_facts(3) [OF assms, of ch]
      by (simp add: with_overlay_def)
  qed
qed

lemma document_hygienic:
  assumes "hygienic b s"
  shows "all_clean b (document s)" "skeletons b (document s) = skeletons b (page s)"
proof -
  have p: "all_clean b (page s)" using assms by (simp add: hygienic_def)
  show "all_clean b (document s)"
  proof (cases "bgContainer s")
    case None
    then show ?thesis using p by (simp add: document_def)
  next
    case (Some bg)
    then have "scripted b bg" using assms by (simp add: hygienic_def overlay_scripted_def)
    then show ?thesis using Some p with_overlay_facts(1) by (simp add: document_def)
  qed
  show "skeletons b (document s) = skeletons b (page s)"
  proof (cases "bgContainer s")
    case None
    then show ?thesis by (simp add: document_def)
  next
    case (Some bg)
    then have "scripted b bg" using assms by (simp add: hygienic_def overlay_scripted_def)
    then show ?thesis using Some with_overlay_facts(2) by (simp add: document_def)
  qed
qed

section \<open>Distinct identities: a descendant of a container has a closest container\<close>

lemma path_present:
  shows "t \<in> eid ` set (e # descendants e) \<Longrightarrow> path_to t e \<noteq> []"
    and "t \<in> eid ` set (elements_of es) \<Longrightarrow> path_in t es \<noteq> []"
proof (induction t e and t es rule: path_to_path_in.induct)
  case (1 i j t cl st ch)
  then show ?case by (auto split: list.splits)
next
  case (2 i)
  then show ?case by simp
next
  case (3 i c cs)
  show ?case
  proof (cases "path_to i c")
    case Nil
    then have "i \<notin> eid ` set (c # descendants c)" using 3(1) by blast
    then have "i \<in> eid ` set (elements_of cs)" using 3(3) by auto
    then show ?thesis using 3(2) Nil by simp
  next
    case (Cons x xs)
    then show ?thesis by simp
  qed
qed

lemma path_through:
  shows "distinct (map eid (e # descendants e)) \<Longrightarrow> c \<in> set (e # descendants e) \<Longrightarrow>
         x \<in> set (descendants c) \<Longrightarrow> c \<in> set (path_to (eid x) e)"
    and "distinct (map eid (elements_of es)) \<Longrightarrow> c \<in> set (elements_of es) \<Longrightarrow>
         x \<in> set (descendants c) \<Longrightarrow> c \<in> set (path_in (eid x) es)"
proof (induction e and es rule: descendants_elements_of.induct)
  case (1 i t cl st ch)
  let ?e = "Element i t cl st ch"
  show ?case
  proof (cases "c = ?e")
    case True
    then have x: "x \<in> set (elements_of ch)" using 1(4) by simp
    then have ne: "eid x \<noteq> i" using 1(2) by auto
    have "path_in (eid x) ch \<noteq> []" using x path_present(2) [of "eid x" ch] by blast
    then show ?thesis using True ne by (cases "path_in (eid x) ch") auto
  next
    case False
    then have c: "c \<in> set (elements_of ch)" using 1(3) by simp
    then have x: "x \<in> set (elements_of ch)" using 1(4) descendants_elements(2) by blast
    then have ne: "eid x \<noteq> i" using 1(2) by auto
    have "distinct (map eid (elements_of ch))" using 1(2) by simp
    then have "c \<in> set (path_in (eid x) ch)" using c 1(4) by (rule 1(1))
    then show ?thesis using ne by (cases "path_in (eid x) ch") auto
  qed
next
  case 2
  then show ?case by simp
next
  case (3 e es)
  have d1: "distinct (map eid (e # descendants e))" and d2: "distinct (map eid (elements_of es))"
    using 3(3) by simp_all
  show ?case
  proof (cases "c \<in> set (e # descendants e)")
    case True
    have "c \<in> set (path_to (eid x) e)" using 3(1) [OF d1 True 3(5)] .
    then show ?thesis by (cases "path_to (eid x) e") auto
  next
    case False
    then have c: "c \<in> set (elements_of es)" using 3(4) by auto
    then have x: "x \<in> set (elements_of es)" using 3(5) descendants_elements(2) by blast
    then have "eid x \<in> eid ` set (elements_of es)" by blast
    moreover have "eid ` set (e # descendants e) \<inter> eid ` set (elements_of es) = {}"
      using 3(3) by auto
    ultimately have "eid x \<notin> eid ` set (e # descendants e)" by blast
    then have "\<And>y. y \<in> set (e # descendants e) \<Longrightarrow> eid y \<noteq> eid x" by (metis imageI)
    then have "list_all (\<lambda>y. eid y \<noteq> eid x) (e # descendants e)"
      unfolding list_all_iff by blast
    then have p: "path_to (eid x) e = []" by (rule path_absent(1))
    have "c \<in> set (path_in (eid x) es)" using 3(2) [OF d2 c 3(5)] .
    then show ?thesis using p by simp
  qed
qed

lemma closest_of_descendant:
  assumes "distinct (map eid (elements_of roots))" "c \<in> set (elements_of roots)"
    and "x \<in> set (descendants c)" "matches sels c"
  shows "closest sels (eid x) roots \<noteq> None"
proof -
  have "c \<in> set (rev (path_in (eid x) roots))" using path_through(2) [OF assms(1,2,3)] by simp
  then show ?thesis using assms(4) by (auto simp: closest_def find_None_iff)
qed

section \<open>Mutations keep the page clean and its skeleton\<close>

lemma skeletons_append: "skeletons b (xs @ ys) = skeletons b xs @ skeletons b ys"
  by (induction xs) simp_all

lemma all_scripted_append: "all_scripted b (xs @ ys) = (all_scripted b xs \<and> all_scripted b ys)"
  by (induction xs) simp_all

lemma all_clean_append: "all_clean b (xs @ ys) = (all_clean b xs \<and> all_clean b ys)"
  by (induction xs) simp_all

lemma harmless_set_style: "harmless b (set_style p v)"
  unfolding harmless_def
proof
  fix e
  obtain i t cl st ch where e: "e = Element i t cl st ch" by (cases e)
  show "eid (set_style p v e) = eid e \<and> skeleton b (set_style p v e) = skeleton b e \<and>
     (scripted b e \<longrightarrow> scripted b (set_style p v e)) \<and> (clean b e \<longrightarrow> clean b (set_style p v e))"
    unfolding e by (simp add: set_style_def)
qed

lemma harmless_classList_add:
  assumes "c \<noteq> ''hero-cta''" "c \<noteq> ''grid''" "c \<noteq> ''fade-in-element''"
  shows "harmless b (classList_add c)"
  unfolding harmless_def
proof
  fix e
  obtain i t cl st ch where e: "e = Element i t cl st ch" by (cases e)
  show "eid (classList_add c e) = eid e \<and> skeleton b (classList_add c e) = skeleton b e \<and>
     (scripted b e \<longrightarrow> scripted b (classList_add c e)) \<and>
     (clean b e \<longrightarrow> clean b (classList_add c e))"
    unfolding e using assms by (simp add: classList_add_def inert_def)
qed

lemma harmless_comp: "harmless b f \<Longrightarrow> harmless b g \<Longrightarrow> harmless b (\<lambda>e. f (g e))"
  by (simp add: harmless_def)

lemma harmless_onCardMouseMove: "harmless b onCardMouseMove"
proof -
  have "onCardMouseMove =
      (\<lambda>e. set_style ''transition'' [Lit ''all 0.3s cubic-bezier(0.25, 0.8, 0.25, 1)'']
        (set_style ''boxShadow'' [Lit (boxShadow (shadowColor (cardType e)))]
          (set_style ''transform'' [Lit ''translateY(-4px)''] e)))"
    by (rule ext) (simp add: onCardMouseMove_def Let_def)
  moreover have "harmless b \<dots>"
    unfolding harmless_def
  proof
    fix e
    obtain i t cl st ch where e: "e = Element i t cl st ch" by (cases e)
    show "eid (set_style ''transition'' [Lit ''all 0.3s cubic-bezier(0.25, 0.8, 0.25, 1)'']
        (set_style ''boxShadow'' [Lit (boxShadow (shadowColor (cardType e)))]
          (set_style ''transform'' [Lit ''translateY(-4px)''] e))) = eid e \<and>
      skeleton b (set_style ''transition'' [Lit ''all 0.3s cubic-bezier(0.25, 0.8, 0.25, 1)'']
        (set_style ''boxShadow'' [Lit (boxShadow (shadowColor (cardType e)))]
          (set_style ''transform'' [Lit ''translateY(-4px)''] e))) = skeleton b e \<and>
      (scripted b e \<longrightarrow>
       scripted b (set_style ''transition'' [Lit ''all 0.3s cubic-bezier(0.25, 0.8, 0.25, 1)'']
        (set_style ''boxShadow'' [Lit (boxShadow (shadowColor (cardType e)))]
          (set_style ''transform'' [Lit ''translateY(-4px)''] e)))) \<and>
      (clean b e \<longrightarrow>
       clean b (set_style ''transition'' [Lit ''all 0.3s cubic-bezier(0.25, 0.8, 0.25, 1)'']
        (set_style ''boxShadow'' [Lit (boxShadow (shadowColor (cardType e)))]
          (set_style ''transform'' [Lit ''translateY(-4px)''] e))))"
      unfolding e by (simp add: set_style_def)
  qed
  ultimately show ?thesis by simp
qed

lemma harmless_onCardMouseLeave: "harmless b onCardMouseLeave"
  unfolding onCardMouseLeave_def [abs_def] by (rule harmless_set_style)

lemma harmless_appendChild:
  assumes "scripted b r"
  shows "harmless b (appendChild r)"
  unfolding harmless_def
proof
  fix e
  obtain i t cl st ch where e: "e = Element i t cl st ch" by (cases e)
  have r: "b \<le> eid r" "clean b r" using assms scripted_inert clean_scripted(1) by blast+
  show "eid (appendChild r e) = eid e \<and> skeleton b (appendChild r e) = skeleton b e \<and>
     (scripted b e \<longrightarrow> scripted b (appendChild r e)) \<and>
     (clean b e \<longrightarrow> clean b (appendChild r e))"
    unfolding e using assms r
    by (simp add: appendChild_def skeletons_append all_scripted_append all_clean_append)
qed


lemma update_harmless:
  assumes "harmless b f"
  shows "skeleton b (update_element t f e) = skeleton b e \<and>
         (scripted b e \<longrightarrow> scripted b (update_element t f e)) \<and>
         (clean b e \<longrightarrow> clean b (update_element t f e))"
    and "skeletons b (map (update_element t f) es) = skeletons b es \<and>
         (all_scripted b es \<longrightarrow> all_scripted b (map (update_element t f) es)) \<and>
         (all_clean b es \<longrightarrow> all_clean b (map (update_element t f) es))"
proof (induction e and es rule: descendants_elements_of.induct)
  case (1 i u cl st ch)
  show ?case
  proof (cases "t = i")
    case True
    then show ?thesis using assms by (simp add: harmless_def)
  next
    case False
    then show ?thesis using 1 by simp
  qed
next
  case 2
  show ?case by simp
next
  case (3 c cs)
  have "eid (update_element t f c) = eid c"
    using assms by (cases c) (simp add: harmless_def)
  then show ?case using 3 by simp
qed

lemma scripted_remove:
  shows "scripted b e \<Longrightarrow> scripted b (remove_element k e)"
    and "all_scripted b es \<Longrightarrow>
         all_scripted b (map (remove_element k) (filter (\<lambda>c. eid c \<noteq> k) es))"
proof (induction e and es rule: descendants_elements_of.induct)
  case (1 i u cl st ch)
  then show ?case by simp
next
  case 2
  show ?case by simp
next
  case (3 c cs)
  then show ?case by simp
qed

lemma eid_remove_element [simp]: "eid (remove_element k e) = eid e"
  by (cases e) simp

lemma remove_keeps:
  assumes "b \<le> k"
  shows "skeleton b (remove_element k e) = skeleton b e \<and>
         (clean b e \<longrightarrow> clean b (remove_element k e))"
    and "skeletons b (map (remove_element k) (filter (\<lambda>c. eid c \<noteq> k) es)) = skeletons b es \<and>
         (all_clean b es \<longrightarrow> all_clean b (map (remove_element k) (filter (\<lambda>c. eid c \<noteq> k) es)))"
proof (induction e and es rule: descendants_elements_of.induct)
  case (1 i u cl st ch)
  then show ?case by (simp add: scripted_remove(2))
next
  case 2
  show ?case by simp
next
  case (3 c cs)
  then show ?case using assms by simp
qed

section \<open>The generators keep the overlay scripted\<close>

lemma scripted_set_style [simp]: "scripted b (set_style p v e) = scripted b e"
  by (cases e) (simp add: set_style_def)

lemma scripted_new:
  "b \<le> n \<Longrightarrow> inert [c] \<Longrightarrow> scripted b (set_className c (Element n t [] [] []))"
  by (simp add: set_className_def)

lemma scripted_update_append:
  "scripted b bg \<Longrightarrow> scripted b x \<Longrightarrow> scripted b (update_element k (appendChild x) bg)"
  using update_harmless(1) [OF harmless_appendChild, of b x k bg] by simp

lemma scripted_appendChild:
  "scripted b bg \<Longrightarrow> scripted b x \<Longrightarrow> scripted b (appendChild x bg)"
  using harmless_appendChild [of b x] by (simp add: harmless_def)

lemma scripted_update_clear:
  "scripted b bg \<Longrightarrow> scripted b (update_element k clear_children bg)"
proof (induction k clear_children bg rule: update_element.induct)
  case (1 i j t cl st ch)
  have "all_scripted b ch \<Longrightarrow> (\<And>c. c \<in> set ch \<Longrightarrow> scripted b c \<Longrightarrow>
      scripted b (update_element i clear_children c)) \<Longrightarrow>
      all_scripted b (map (update_element i clear_children) ch)" for ch
    by (induction ch) simp_all
  then show ?case using 1 by (auto simp: clear_children_def)
qed

lemma inert_generated:
  "inert [''hex-shape'']" "inert [''particle'']" "inert [''neural-node'']"
  "inert [''neural-connection'']"
  by (simp_all add: inert_def)

lemma overlay_scripted_addShape:
  "overlay_scripted b s \<Longrightarrow> overlay_scripted b (addShape k s)"
  by (auto simp: overlay_scripted_def addShape_def createElement_def random_def update_overlay_def
      Let_def scripted_update_append scripted_new inert_generated split: option.splits)

lemma overlay_scripted_fold:
  assumes "\<And>x s. P s \<Longrightarrow> P (f x s)"
  shows "P s \<Longrightarrow> P (fold f xs s)"
  by (induction xs arbitrary: s) (simp_all add: assms)

lemma overlay_scripted_createFloatingShapes:
  "overlay_scripted b s \<Longrightarrow> createFloatingShapes s = Some s' \<Longrightarrow> overlay_scripted b s'"
  by (auto simp: createFloatingShapes_def overlay_scripted_fold overlay_scripted_addShape
      split: option.splits)

lemma overlay_scripted_createParticle:
  "overlay_scripted b s \<Longrightarrow> createParticle s = Some s' \<Longrightarrow> overlay_scripted b s'"
  by (auto simp: overlay_scripted_def createParticle_def createElement_def random_def Let_def
      scripted_appendChild scripted_new inert_generated split: option.splits)

lemma overlay_scripted_onParticleAnimationEnd:
  assumes "overlay_scripted b s" "onParticleAnimationEnd p s = Some s'"
  shows "overlay_scripted b s'"
proof -
  have "overlay_scripted b (s\<lparr>bgContainer := map_option (remove_element p) (bgContainer s)\<rparr>)"
    using assms(1) by (auto simp: overlay_scripted_def scripted_remove(1) split: option.splits)
  then show ?thesis
    using assms(2) unfolding onParticleAnimationEnd_def by (rule overlay_scripted_createParticle)
qed

lemma overlay_scripted_connect:
  "overlay_scripted b s \<Longrightarrow> overlay_scripted b (connect k a c s)"
  by (auto simp: overlay_scripted_def connect_def createElement_def random_def update_overlay_def
      Let_def scripted_update_append scripted_new inert_generated split: option.splits)

lemma overlay_scripted_createNeuralConnections:
  "overlay_scripted b s \<Longrightarrow> overlay_scripted b (createNeuralConnections k s)"
  unfolding createNeuralConnections_def
  by (rule overlay_scripted_fold)
    (auto simp: overlay_scripted_fold overlay_scripted_connect)

lemma overlay_scripted_addNode:
  "overlay_scripted b s \<Longrightarrow> overlay_scripted b (addNode k s)"
  by (auto simp: overlay_scripted_def addNode_def createElement_def random_def update_overlay_def
      Let_def scripted_update_append scripted_new inert_generated split: option.splits)

lemma overlay_scripted_createNeuralNetwork:
  "overlay_scripted b s \<Longrightarrow> createNeuralNetwork s = Some s' \<Longrightarrow> overlay_scripted b s'"
  by (auto simp: createNeuralNetwork_def overlay_scripted_fold overlay_scripted_addNode
      overlay_scripted_createNeuralConnections split: option.splits)

lemma overlay_scripted_clear:
  "overlay_scripted b s \<Longrightarrow> overlay_scripted b (update_overlay k clear_children s)"
  by (auto simp: overlay_scripted_def update_overlay_def scripted_update_clear split: option.splits)

lemma overlay_scripted_handleResize:
  assumes "overlay_scripted b s" "handleResize s = Some s'"
  shows "overlay_scripted b s'"
proof -
  from assms(2) obtain bg sc s1 bg1 nc where
    h: "createFloatingShapes (update_overlay (eid sc) clear_children s) = Some s1"
       "createNeuralNetwork ((update_overlay (eid nc) clear_children s1)\<lparr>neuralNodes := []\<rparr>) = Some s'"
    by (auto simp: handleResize_def split: option.splits)
  have 1: "overlay_scripted b s1"
    using overlay_scripted_clear [OF assms(1)] h(1) by (rule overlay_scripted_createFloatingShapes)
  have "overlay_scripted b ((update_overlay (eid nc) clear_children s1)\<lparr>neuralNodes := []\<rparr>)"
    using overlay_scripted_clear [OF 1, of "eid nc"] by (simp add: overlay_scripted_def)
  then show ?thesis using h(2) by (rule overlay_scripted_createNeuralNetwork)
qed

lemma overlay_scripted_run_frame:
  "overlay_scripted b s \<Longrightarrow> overlay_scripted b (run_frame t s)"
  unfolding run_frame_def
  by (rule overlay_scripted_fold) (auto simp: overlay_scripted_def animate_eq)

lemma overlay_scripted_destroy:
  "overlay_scripted b s \<Longrightarrow> overlay_scripted b (destroy s)"
  by (auto simp: overlay_scripted_def destroy_def cancelAnimationFrame_def Let_def
      split: option.splits)

section \<open>Every step keeps the state hygienic and the skeleton of the page\<close>

lemma ripples_from_filter: "ripples_from b tms \<Longrightarrow> ripples_from b (filter P tms)"
  by (simp add: ripples_from_def list_all_iff)

lemma ripples_from_append:
  "ripples_from b (xs @ ys) = (ripples_from b xs \<and> ripples_from b ys)"
  by (simp add: ripples_from_def)

lemma hygienic_same_page:
  assumes "hygienic b s" "same_page s s'" "overlay_scripted b s'"
  shows "hygienic b s' \<and> skeletons b (page s') = skeletons b (page s)"
  using assms by (simp add: hygienic_def same_page_def)

lemma hygienic_timers:
  assumes "hygienic b s" "ripples_from b tms"
  shows "hygienic b (s\<lparr>timers := tms\<rparr>)"
  using assms by (simp add: hygienic_def overlay_scripted_def)

lemma hygienic_update_page:
  assumes "hygienic b s" "harmless b f"
  shows "hygienic b (update_page t f s) \<and>
         skeletons b (page (update_page t f s)) = skeletons b (page s)"
  using assms update_harmless(2) [OF assms(2), of t "page s"]
  by (simp add: hygienic_def overlay_scripted_def update_page_def)

lemmas harmless_in_view = harmless_classList_add [of "''in-view''", simplified]

lemma keeps_AnimationEnd:
  assumes "hygienic b s" "step (AnimationEnd p) s = Some s'"
  shows "hygienic b s' \<and> skeletons b (page s') = skeletons b (page s)"
proof (cases "p \<in> set (map eid (rendered_particles s))")
  case True
  then have e: "onParticleAnimationEnd p s = Some s'" using assms(2) by simp
  have "overlay_scripted b s" using assms(1) by (simp add: hygienic_def)
  then have "overlay_scripted b s'" using e by (rule overlay_scripted_onParticleAnimationEnd)
  with assms(1) same_page_onParticleAnimationEnd [OF e] show ?thesis
    by (rule hygienic_same_page)
next
  case False
  then have "s' = s" using assms(2) by simp
  then show ?thesis using assms(1) by simp
qed

lemma keeps_Resize:
  assumes "hygienic b s" "step (Resize w) s = Some s'"
  shows "hygienic b s' \<and> skeletons b (page s') = skeletons b (page s)"
proof -
  have s': "s' = onResize (s\<lparr>innerWidth := w\<rparr>)" using assms(2) by simp
  have r: "ripples_from b (timers s)" using assms(1) by (simp add: hygienic_def)
  have n: "ripples_from b [\<lparr>timer_id = n, due = d, action = CallHandleResize\<rparr>]" for n d
    by (simp add: ripples_from_def)
  have "ripples_from b (timers s')"
    unfolding s' using r ripples_from_filter [OF r] n
    by (simp add: onResize_def clearTimeout_def setTimeout_def Let_def ripples_from_append
        split: option.splits)
  moreover have "page s' = page s" "next_eid s' = next_eid s" "bgContainer s' = bgContainer s"
    unfolding s'
    by (auto simp: onResize_def clearTimeout_def setTimeout_def Let_def split: option.splits)
  ultimately show ?thesis using assms(1) by (simp add: hygienic_def overlay_scripted_def)
qed

lemma keeps_callback:
  assumes "hygienic b s" "tm \<in> set (timers s)"
    and "run_callback (action tm) (s\<lparr>timers := filter P (timers s)\<rparr>) = Some s'"
  shows "hygienic b s' \<and> skeletons b (page s') = skeletons b (page s)"
proof -
  let ?s0 = "s\<lparr>timers := filter P (timers s)\<rparr>"
  have h0: "hygienic b ?s0"
    using assms(1) by (intro hygienic_timers ripples_from_filter) (simp_all add: hygienic_def)
  show ?thesis
  proof (cases "action tm")
    case (AddInView k)
    then have s': "s' = update_page k (classList_add ''in-view'') ?s0" using assms(3) by simp
    show ?thesis
      unfolding s' using hygienic_update_page [OF h0 harmless_in_view, of k] by (simp add: update_page_def)
  next
    case (RemoveRipple k)
    then have s': "s' = ?s0\<lparr>page := remove_from k (page s)\<rparr>" using assms(3) by simp
    have "b \<le> k"
      using assms(1,2) RemoveRipple by (auto simp: hygienic_def ripples_from_def list_all_iff)
    from remove_keeps(2) [OF this, of "page s"] show ?thesis
      using h0 by (simp add: s' hygienic_def overlay_scripted_def remove_from_def)
  next
    case CallHandleResize
    then have e: "handleResize ?s0 = Some s'" using assms(3) by simp
    have "overlay_scripted b ?s0" using h0 by (simp add: hygienic_def)
    then have "overlay_scripted b s'" using e by (rule overlay_scripted_handleResize)
    with h0 same_page_handleResize [OF e]
    have "hygienic b s' \<and> skeletons b (page s') = skeletons b (page ?s0)"
      by (rule hygienic_same_page)
    then show ?thesis by simp
  qed
qed

lemma keeps_Timeout:
  assumes "hygienic b s" "step (Timeout i) s = Some s'"
  shows "hygienic b s' \<and> skeletons b (page s') = skeletons b (page s)"
proof (cases "find (\<lambda>tm. timer_id tm = i) (timers s)")
  case None
  then have "s' = s" using assms(2) by simp
  then show ?thesis using assms(1) by simp
next
  case (Some tm)
  then have m: "tm \<in> set (timers s)"
    using find_Some_iff [of "\<lambda>tm. timer_id tm = i" "timers s" tm] nth_mem by metis
  show ?thesis
  proof (cases "due tm \<le> clock s")
    case True
    then have "run_callback (action tm)
        (s\<lparr>timers := filter (\<lambda>tm'. timer_id tm' \<noteq> i) (timers s)\<rparr>) = Some s'"
      using assms(2) Some by simp
    with assms(1) m show ?thesis by (rule keeps_callback)
  next
    case False
    then have "s' = s" using assms(2) Some by simp
    then show ?thesis using assms(1) by simp
  qed
qed

lemma schedule_reveals:
  "map (\<lambda>tm. (due tm, action tm))
     (timers (fold (\<lambda>(index, sibling) s'.
                      snd (setTimeout (AddInView (eid sibling)) (index * 200) s')) xs s)) =
   map (\<lambda>tm. (due tm, action tm)) (timers s) @
   map (\<lambda>(i, sib). (clock s + i * 200, AddInView (eid sib))) xs \<and>
   (let s' = fold (\<lambda>(index, sibling) s'.
                 snd (setTimeout (AddInView (eid sibling)) (index * 200) s')) xs s
    in page s' = page s \<and> clock s' = clock s \<and> next_eid s' = next_eid s \<and>
       bgContainer s' = bgContainer s)"
proof (induction xs arbitrary: s)
  case Nil
  show ?case by simp
next
  case (Cons x xs)
  obtain i sib where x: "x = (i, sib)" by (cases x)
  show ?case
    unfolding x using Cons [of "snd (setTimeout (AddInView (eid sib)) (i * 200) s)"]
    by (simp add: setTimeout_def Let_def)
qed

lemma ripples_from_actions:
  assumes "map action tms' = map action tms @ as" "ripples_from b tms"
    and "\<And>a k. a \<in> set as \<Longrightarrow> a \<noteq> RemoveRipple k"
  shows "ripples_from b tms'"
proof -
  have "list_all (\<lambda>a. case a of RemoveRipple k \<Rightarrow> b \<le> k | _ \<Rightarrow> True) (map action tms @ as)"
    using assms(2,3) by (auto simp: ripples_from_def list_all_iff split: callback.splits)
  then have "list_all (\<lambda>a. case a of RemoveRipple k \<Rightarrow> b \<le> k | _ \<Rightarrow> True) (map action tms')"
    using assms(1) by simp
  then show ?thesis by (simp add: ripples_from_def list_all_iff)
qed

lemma keeps_onEntry:
  assumes "hygienic b s"
  shows "hygienic b (onEntry e s) \<and> skeletons b (page (onEntry e s)) = skeletons b (page s)"
proof (cases "isIntersecting e")
  case False
  then show ?thesis using assms by (simp add: onEntry_def)
next
  case True
  show ?thesis
  proof (cases "closest [ByClass ''hero-cta'', ByClass ''grid''] (target e) (document s)")
    case None
    then have "onEntry e s = update_page (target e) (classList_add ''in-view'') s"
      using True by (simp add: onEntry_def)
    then show ?thesis using hygienic_update_page [OF assms harmless_in_view] by simp
  next
    case (Some c)
    let ?xs = "enumerate 0 (querySelectorAll [ByClass ''fade-in-element''] c)"
    let ?s' = "fold (\<lambda>(index, sibling) s'.
                 snd (setTimeout (AddInView (eid sibling)) (index * 200) s')) ?xs s"
    have e: "onEntry e s = ?s'" using True Some by (simp add: onEntry_def)
    note sr = schedule_reveals [of ?xs s]
    have "map action (timers ?s') =
        map action (timers s) @ map (\<lambda>(i, sib). AddInView (eid sib)) ?xs"
    proof -
      have "map snd (map (\<lambda>tm. (due tm, action tm)) (timers ?s')) =
          map snd (map (\<lambda>tm. (due tm, action tm)) (timers s) @
            map (\<lambda>(i, sib). (clock s + i * 200, AddInView (eid sib))) ?xs)"
        using sr by simp
      then show ?thesis by (simp add: comp_def case_prod_unfold)
    qed
    moreover have "ripples_from b (timers s)" using assms by (simp add: hygienic_def)
    ultimately have "ripples_from b (timers ?s')"
      by (rule ripples_from_actions) auto
    then show ?thesis
      unfolding e using sr assms by (simp add: hygienic_def overlay_scripted_def Let_def)
  qed
qed

lemma keeps_Intersection:
  assumes "hygienic b s"
  shows "hygienic b (onIntersection es s) \<and>
         skeletons b (page (onIntersection es s)) = skeletons b (page s)"
  using assms unfolding onIntersection_def
proof (induction es arbitrary: s)
  case Nil
  then show ?case by simp
next
  case (Cons e es)
  from keeps_onEntry [OF Cons.prems, of e] Cons.IH [of "onEntry e s"] show ?case by simp
qed

lemma keeps_onButtonHover:
  assumes "hygienic b s"
  shows "hygienic b (onButtonHover ev s) \<and>
         skeletons b (page (onButtonHover ev s)) = skeletons b (page s)"
proof -
  let ?t = "event_target ev"
  have b: "b \<le> next_eid s" using assms by (simp add: hygienic_def overlay_scripted_def)
  have r: "scripted b (the_ripple ev s)"
    using b by (simp add: the_ripple_def Let_def inert_def)
  let ?p1 = "map (update_element ?t (set_style ''transform'' [Lit ''translateY(-4px)''])) (page s)"
  let ?p2 = "map (update_element ?t (set_style ''position'' [Lit ''relative''])) ?p1"
  let ?p3 = "map (update_element ?t (set_style ''overflow'' [Lit ''hidden''])) ?p2"
  let ?p4 = "map (update_element ?t (appendChild (the_ripple ev s))) ?p3"
  have c0: "all_clean b (page s)" using assms by (simp add: hygienic_def)
  have 1: "skeletons b ?p1 = skeletons b (page s)" "all_clean b ?p1"
    using update_harmless(2) [OF harmless_set_style, where t = ?t and es = "page s"] c0
    by simp_all
  have 2: "skeletons b ?p2 = skeletons b (page s)" "all_clean b ?p2"
    using update_harmless(2) [OF harmless_set_style, where t = ?t and es = ?p1] 1
    by simp_all
  have 3: "skeletons b ?p3 = skeletons b (page s)" "all_clean b ?p3"
    using update_harmless(2) [OF harmless_set_style, where t = ?t and es = ?p2] 2
    by simp_all
  have 4: "skeletons b ?p4 = skeletons b (page s)" "all_clean b ?p4"
    using update_harmless(2) [OF harmless_appendChild [OF r], where t = ?t and es = ?p3] 3
    by simp_all
  have pg: "page (onButtonHover ev s) = ?p4"
    by (simp add: onButtonHover_eq hovered_page_def del: map_map)
  have tm: "ripples_from b (timers (onButtonHover ev s))"
    using assms b by (simp add: onButtonHover_eq hygienic_def ripples_from_def)
  have ov: "overlay_scripted b (onButtonHover ev s)"
    using assms by (simp add: onButtonHover_eq hygienic_def overlay_scripted_def)
  show ?thesis using 4 tm ov unfolding hygienic_def pg by simp
qed

lemma keeps_MouseEnter:
  assumes "hygienic b s" "step (MouseEnter ev) s = Some s'"
  shows "hygienic b s' \<and> skeletons b (page s') = skeletons b (page s)"
proof -
  let ?s1 = "if event_target ev \<in> set (button_listeners s) then onButtonHover ev s else s"
  have 1: "hygienic b ?s1 \<and> skeletons b (page ?s1) = skeletons b (page s)"
    using keeps_onButtonHover [OF assms(1)] assms(1) by simp
  have s': "s' = (if event_target ev \<in> set (card_listeners s)
               then update_page (event_target ev) onCardMouseMove ?s1 else ?s1)"
    using assms(2) by (simp add: Let_def)
  show ?thesis
  proof (cases "event_target ev \<in> set (card_listeners s)")
    case True
    then show ?thesis
      using hygienic_update_page [OF conjunct1 [OF 1] harmless_onCardMouseMove, of "event_target ev"]
        1 s'
      by simp
  next
    case False
    then show ?thesis using 1 s' by simp
  qed
qed

lemma keeps_MouseLeave:
  assumes "hygienic b s" "step (MouseLeave ev) s = Some s'"
  shows "hygienic b s' \<and> skeletons b (page s') = skeletons b (page s)"
proof -
  let ?s1 = "if event_target ev \<in> set (button_listeners s) then onButtonLeave ev s else s"
  have 1: "hygienic b ?s1 \<and> skeletons b (page ?s1) = skeletons b (page s)"
    using hygienic_update_page [OF assms(1) harmless_set_style] assms(1)
    by (simp add: onButtonLeave_def)
  have s': "s' = (if event_target ev \<in> set (card_listeners s)
               then update_page (event_target ev) onCardMouseLeave ?s1 else ?s1)"
    using assms(2) by (simp add: Let_def)
  show ?thesis
  proof (cases "event_target ev \<in> set (card_listeners s)")
    case True
    then show ?thesis
      using hygienic_update_page [OF conjunct1 [OF 1] harmless_onCardMouseLeave, of "event_target ev"]
        1 s'
      by simp
  next
    case False
    then show ?thesis using 1 s' by simp
  qed
qed

lemma step_hygienic:
  assumes "hygienic b s" "step ev s = Some s'"
  shows "hygienic b s' \<and> skeletons b (page s') = skeletons b (page s)"
proof (cases ev)
  case (AnimationEnd p)
  then show ?thesis using assms keeps_AnimationEnd by blast
next
  case (Resize w)
  then show ?thesis using assms keeps_Resize by blast
next
  case (Elapse d)
  then have "s' = s\<lparr>clock := clock s + d\<rparr>" using assms(2) by simp
  then show ?thesis using assms(1) by (simp add: hygienic_def overlay_scripted_def)
next
  case (Timeout i)
  then show ?thesis using assms keeps_Timeout by blast
next
  case (AnimationFrame t)
  then have s': "s' = run_frame t s" using assms(2) by simp
  have "overlay_scripted b s'"
    unfolding s' using assms(1) by (intro overlay_scripted_run_frame) (simp add: hygienic_def)
  with assms(1) same_page_run_frame [of s t] show ?thesis
    unfolding s' by (rule hygienic_same_page)
next
  case (Intersection es)
  then have "s' = onIntersection es s" using assms(2) by simp
  then show ?thesis using keeps_Intersection [OF assms(1)] by simp
next
  case (MouseEnter e)
  then show ?thesis using assms keeps_MouseEnter by blast
next
  case (MouseLeave e)
  then show ?thesis using assms keeps_MouseLeave by blast
next
  case Destroy
  then have s': "s' = destroy s" using assms(2) by simp
  have "overlay_scripted b s'"
    unfolding s' using assms(1) by (intro overlay_scripted_destroy) (simp add: hygienic_def)
  with assms(1) same_page_destroy [of s] show ?thesis
    unfolding s' by (rule hygienic_same_page)
qed

section \<open>The stagger invariant\<close>

lemma stagger_inv_step:
  assumes "stagger_inv t0 i j old s" "reveal_step s s'"
  shows "stagger_inv t0 i j old s'"
  unfolding stagger_inv_def
proof (intro conjI ballI impI)
  show "t0 \<le> clock s'" using assms unfolding stagger_inv_def reveal_step_def by simp
next
  fix tm
  assume "tm \<in> set (timers s')" "action tm = AddInView j"
  then show "t0 + i * 200 \<le> due tm"
    using assms unfolding stagger_inv_def reveal_step_def by blast
next
  assume r: "revealed j s'"
  from assms(2) r consider "revealed j s"
    | tm where "tm \<in> set (timers s)" "action tm = AddInView j" "due tm \<le> clock s"
    unfolding reveal_step_def by blast
  then show "old \<or> t0 + i * 200 \<le> clock s'"
  proof cases
    case 1
    then have "old \<or> t0 + i * 200 \<le> clock s"
      using assms(1) unfolding stagger_inv_def by blast
    moreover have "clock s \<le> clock s'" using assms(2) by (simp add: reveal_step_def)
    ultimately show ?thesis by auto
  next
    case 2
    then have "t0 + i * 200 \<le> due tm"
      using assms(1) unfolding stagger_inv_def by blast
    moreover have "clock s \<le> clock s'" using assms(2) by (simp add: reveal_step_def)
    ultimately show ?thesis using 2(3) by auto
  qed
qed

lemma take_nth_mem: "k < i \<Longrightarrow> k < length xs \<Longrightarrow> xs ! k \<in> set (take i xs)"
  by (metis in_set_conv_nth length_take min_less_iff_conj nth_take)

text \<open>
  One entry of the observer callback keeps the invariant, in a hygienic state whose
  skeleton holds the sibling back and gives it a container.
\<close>

lemma stagger_onEntry:
  assumes h: "hygienic b s" and jb: "j < b"
    and hb: "held_back j i (skeletons b (page s))"
    and cj: "closest containers j (skeletons b (page s)) \<noteq> None"
    and inv: "stagger_inv t0 i j old s"
  shows "stagger_inv t0 i j old (onEntry e s)"
proof (cases "isIntersecting e")
  case False
  then show ?thesis using inv by (simp add: onEntry_def)
next
  case True
  note dh = document_hygienic [OF h]
  show ?thesis
  proof (cases "closest containers (target e) (document s)")
    case None
    then have eq: "onEntry e s = update_page (target e) (classList_add ''in-view'') s"
      using True by (simp add: onEntry_def containers_def)
    have "closest containers j (document s) \<noteq> None"
      using cj closest_skeleton [OF jb dh(1)] dh(2) by auto
    then have ne: "target e \<noteq> j" using None by auto
    have r: "revealed j (onEntry e s) \<Longrightarrow> revealed j s"
    proof -
      assume "revealed j (onEntry e s)"
      then have "marked ''in-view'' j
          (map (update_element (target e) (classList_add ''in-view'')) (page s))"
        by (simp add: revealed_def eq update_page_def)
      then have "marked ''in-view'' j (page s) \<or> target e = j"
      proof (rule marked_update(2) [rotated])
        fix x
        assume "eid x = target e" "marked ''in-view'' j [classList_add ''in-view'' x]"
        then show "marked ''in-view'' j [x] \<or> target e = j"
          using marked_classList_add [of "''in-view''" j "''in-view''" x] by auto
      qed
      then show "revealed j s" using ne by (simp add: revealed_def)
    qed
    show ?thesis
      using inv r unfolding stagger_inv_def eq
      by (auto simp: update_page_def)
  next
    case (Some c)
    let ?sibs = "querySelectorAll fade_in c"
    let ?s' = "fold (\<lambda>(index, sibling) s'.
                 snd (setTimeout (AddInView (eid sibling)) (index * 200) s'))
               (enumerate 0 ?sibs) s"
    have eq: "onEntry e s = ?s'"
      using True Some by (simp add: onEntry_def containers_def fade_in_def)
    note sr = schedule_reveals [of "enumerate 0 ?sibs" s]
    have c: "c \<in> set (elements_of (document s))" "matches containers c"
      using closest_member [OF Some] by simp_all
    have "held_back j i (document s)"
      using hb held_back_skeleton [OF dh(1)] dh(2) by simp
    then have nt: "j \<notin> set (take i (fade_ids c))"
      using c by (auto simp: held_back_def list_all_iff)
    have late: "t0 + i * 200 \<le> due tm"
      if tm: "tm \<in> set (timers ?s')" "action tm = AddInView j" for tm
    proof -
      have "(due tm, action tm) \<in> set (map (\<lambda>tm. (due tm, action tm)) (timers ?s'))"
        using tm(1) by auto
      moreover have "set (map (\<lambda>tm. (due tm, action tm)) (timers ?s')) =
          set (map (\<lambda>tm. (due tm, action tm)) (timers s)) \<union>
          set (map (\<lambda>(i, sib). (clock s + i * 200, AddInView (eid sib))) (enumerate 0 ?sibs))"
        using conjunct1 [OF sr] by (metis set_append)
      ultimately consider
          "(due tm, action tm) \<in> set (map (\<lambda>tm. (due tm, action tm)) (timers s))"
        | "(due tm, action tm) \<in>
             set (map (\<lambda>(i, sib). (clock s + i * 200, AddInView (eid sib))) (enumerate 0 ?sibs))"
        by blast
      then show ?thesis
      proof cases
        case 1
        then obtain tm' where "tm' \<in> set (timers s)" "due tm' = due tm" "action tm' = action tm"
          by auto
        then show ?thesis using inv tm(2) unfolding stagger_inv_def by metis
      next
        case 2
        then obtain k sib where k: "(k, sib) \<in> set (enumerate 0 ?sibs)"
          "due tm = clock s + k * 200" "action tm = AddInView (eid sib)"
          by auto
        then have kk: "k < length ?sibs" "sib = ?sibs ! k"
          by (auto simp: in_set_enumerate_eq)
        have "fade_ids c ! k = j" using k(3) kk tm(2) by (simp add: fade_ids_def)
        then have "\<not> k < i"
          using nt take_nth_mem [of k i "fade_ids c"] kk by (auto simp: fade_ids_def)
        then have "i * 200 \<le> k * 200" by simp
        moreover have "t0 \<le> clock s" using inv by (simp add: stagger_inv_def)
        ultimately show ?thesis using k(2) by linarith
      qed
    qed
    have same: "page ?s' = page s" "clock ?s' = clock s" using sr by (simp_all add: Let_def)
    show ?thesis
      unfolding eq stagger_inv_def
      using late inv same by (auto simp: stagger_inv_def revealed_def)
  qed
qed

lemma stagger_onIntersection:
  assumes "hygienic b s" "j < b" "held_back j i (skeletons b (page s))"
    and "closest containers j (skeletons b (page s)) \<noteq> None"
    and "stagger_inv t0 i j old s"
  shows "stagger_inv t0 i j old (onIntersection es s)"
  using assms unfolding onIntersection_def
proof (induction es arbitrary: s)
  case Nil
  then show ?case by simp
next
  case (Cons e es)
  note k = keeps_onEntry [OF Cons.prems(1), of e]
  have "stagger_inv t0 i j old (onEntry e s)" using Cons.prems by (rule stagger_onEntry)
  then show ?case
    using Cons.IH [of "onEntry e s"] k Cons.prems(2,3,4) by simp
qed

lemma stagger_step:
  assumes "step ev s = Some s'" "hygienic b s" "j < b"
    and "held_back j i (skeletons b (page s))"
    and "closest containers j (skeletons b (page s)) \<noteq> None"
    and "stagger_inv t0 i j old s"
  shows "stagger_inv t0 i j old s'"
proof (cases "\<exists>es. ev = Intersection es")
  case True
  then obtain es where "ev = Intersection es" by blast
  then have "s' = onIntersection es s" using assms(1) by simp
  then show ?thesis using stagger_onIntersection [OF assms(2-6)] by simp
next
  case False
  then have "reveal_step s s'" using assms(1) by (intro step_reveal [of ev]) auto
  with assms(6) show ?thesis by (rule stagger_inv_step)
qed

lemma stagger_run:
  assumes "run s1 es = Some s" "hygienic b s1" "j < b"
    and "held_back j i (skeletons b (page s1))"
    and "closest containers j (skeletons b (page s1)) \<noteq> None"
    and "stagger_inv t0 i j old s1"
  shows "stagger_inv t0 i j old s"
  using assms
proof (induction es arbitrary: s1)
  case Nil
  then show ?case by simp
next
  case (Cons ev es)
  obtain s2 where s2: "step ev s1 = Some s2" "run s2 es = Some s"
  proof (cases "step ev s1")
    case None
    then show ?thesis using Cons.prems(1) by simp
  next
    case (Some s2)
    then show ?thesis using Cons.prems(1) that by simp
  qed
  note k = step_hygienic [OF Cons.prems(2) s2(1)]
  have "stagger_inv t0 i j old s2" using s2(1) Cons.prems(2-6) by (rule stagger_step)
  then show ?case using Cons.IH [OF s2(2)] k Cons.prems(3,4,5) by simp
qed

section \<open>The callback of the observer\<close>

lemma find_in_member:
  shows "find_element i e = Some y \<Longrightarrow> y \<in> set (e # descendants e) \<and> eid y = i"
    and "find_in i es = Some y \<Longrightarrow> y \<in> set (elements_of es) \<and> eid y = i"
proof (induction i e and i es rule: find_element_find_in.induct)
  case (1 i j t cl st ch)
  then show ?case by (auto split: if_splits)
next
  case (2 i)
  then show ?case by simp
next
  case (3 i c cs)
  then show ?case by (auto split: option.splits)
qed

lemma onEntry_immediate:
  assumes "isIntersecting e"
    and "closest containers (target e) (document s) = None"
  shows "onEntry e s = update_page (target e) (classList_add ''in-view'') s"
    and "find_in (target e) (page s) = Some x \<Longrightarrow> revealed (target e) (onEntry e s)"
proof -
  show eq: "onEntry e s = update_page (target e) (classList_add ''in-view'') s"
    using assms by (simp add: onEntry_def containers_def)
  assume "find_in (target e) (page s) = Some x"
  then have "find_in (target e) (page (onEntry e s)) = Some (classList_add ''in-view'' x)"
    unfolding eq update_page_def
    by (simp add: find_update(2) classList_add_def split: element.splits)
  from find_in_member(2) [OF this]
  have "classList_add ''in-view'' x \<in> set (elements_of (page (onEntry e s)))"
    "eid (classList_add ''in-view'' x) = target e" by simp_all
  moreover have "contains ''in-view'' (classList_add ''in-view'' x)"
    by (cases x) (simp add: classList_add_def contains_def)
  ultimately show "revealed (target e) (onEntry e s)"
    unfolding revealed_def marked_def list_ex_iff by blast
qed

lemma onEntry_grouped:
  assumes "isIntersecting e"
    and "closest containers (target e) (document s) = Some c"
  shows "page (onEntry e s) = page s"
    and "map (\<lambda>tm. (due tm, action tm)) (timers (onEntry e s)) =
         map (\<lambda>tm. (due tm, action tm)) (timers s) @
         map (\<lambda>(k, sib). (clock s + k * 200, AddInView (eid sib)))
           (enumerate 0 (querySelectorAll fade_in c))"
proof -
  let ?s' = "fold (\<lambda>(index, sibling) s'.
                 snd (setTimeout (AddInView (eid sibling)) (index * 200) s'))
               (enumerate 0 (querySelectorAll fade_in c)) s"
  have eq: "onEntry e s = ?s'"
    using assms by (simp add: onEntry_def containers_def fade_in_def)
  note sr = schedule_reveals [of "enumerate 0 (querySelectorAll fade_in c)" s]
  show "page (onEntry e s) = page s" unfolding eq using sr by (simp add: Let_def)
  show "map (\<lambda>tm. (due tm, action tm)) (timers (onEntry e s)) =
         map (\<lambda>tm. (due tm, action tm)) (timers s) @
         map (\<lambda>(k, sib). (clock s + k * 200, AddInView (eid sib)))
           (enumerate 0 (querySelectorAll fade_in c))"
    unfolding eq using sr by simp
qed

text \<open>What a trigger in a hygienic state with distinct identities establishes.\<close>

lemma trigger_facts:
  assumes c: "closest containers t (document s) = Some c"
    and i: "i < length (fade_ids c)"
    and h: "hygienic b s"
    and d: "distinct (map eid (elements_of (document s)))"
    and hb: "held_back (fade_ids c ! i) i (document s)"
  shows "fade_ids c ! i < b"
    and "held_back (fade_ids c ! i) i (skeletons b (page s))"
    and "closest containers (fade_ids c ! i) (skeletons b (page s)) \<noteq> None"
proof -
  note dh = document_hygienic [OF h]
  note cm = closest_member [OF c]
  let ?x = "querySelectorAll fade_in c ! i"
  have il: "i < length (querySelectorAll fade_in c)" using i by (simp add: fade_ids_def)
  have j: "fade_ids c ! i = eid ?x" using il by (simp add: fade_ids_def)
  have xm: "?x \<in> set (querySelectorAll fade_in c)" using il by simp
  then have xd: "?x \<in> set (descendants c)" and xf: "matches fade_in ?x"
    by (simp_all add: querySelectorAll_def)
  have xe: "?x \<in> set (elements_of (document s))"
    using descendants_elements(2) [OF cm(1)] xd by blast
  have "clean b ?x" using dh(1) xe by (rule clean_member)
  then have "\<not> b \<le> eid ?x"
    using xf scripted_inert [of b ?x] by (cases ?x) (auto split: if_splits)
  then show jb: "fade_ids c ! i < b" unfolding j by simp
  show "held_back (fade_ids c ! i) i (skeletons b (page s))"
    using hb held_back_skeleton [OF dh(1)] dh(2) by simp
  have "closest containers (eid ?x) (document s) \<noteq> None"
    using d cm(1) xd cm(2) by (rule closest_of_descendant)
  then show "closest containers (fade_ids c ! i) (skeletons b (page s)) \<noteq> None"
    using closest_skeleton [OF jb dh(1)] dh(2) j by auto
qed

text \<open>
  C5, as amended. For an intersecting entry of the observer callback, in the state in
  which the callback handles it. When the target has no recognized container among
  itself and its ancestors (the body and the html element included), the callback adds
  in-view to the target at once. When it has one, the callback changes no class and
  schedules, for each fade-in element of the container, in document order, a reveal
  \<open>k * 200\<close> ms later. Let the state be hygienic with distinct identities, let \<open>j\<close>
  be the fade-in element at position \<open>i\<close> of the container, held back to this position
  (no recognized container of the document has it among the first \<open>i\<close> of its fade-in
  elements), with no reveal of it pending. Then, whatever follows, further entries of the
  same callback and later intersections included, \<open>j\<close> is revealed only if it already
  was or at least \<open>i * 200\<close> ms have passed since the trigger.
\<close>

theorem staggered_reveal:
  assumes "isIntersecting e"
  shows "(closest containers (target e) (document s0) = None \<longrightarrow>
            onEntry e s0 = update_page (target e) (classList_add ''in-view'') s0 \<and>
            (\<forall>x. find_in (target e) (page s0) = Some x \<longrightarrow> revealed (target e) (onEntry e s0))) \<and>
         (\<forall>c. closest containers (target e) (document s0) = Some c \<longrightarrow>
            page (onEntry e s0) = page s0 \<and>
            map (\<lambda>tm. (due tm, action tm)) (timers (onEntry e s0)) =
              map (\<lambda>tm. (due tm, action tm)) (timers s0) @
              map (\<lambda>(k, sib). (clock s0 + k * 200, AddInView (eid sib)))
                (enumerate 0 (querySelectorAll fade_in c)) \<and>
            (\<forall>i b. i < length (fade_ids c) \<longrightarrow>
               hygienic b s0 \<longrightarrow> distinct (map eid (elements_of (document s0))) \<longrightarrow>
               held_back (fade_ids c ! i) i (document s0) \<longrightarrow>
               (\<forall>tm\<in>set (timers s0). action tm \<noteq> AddInView (fade_ids c ! i)) \<longrightarrow>
               (\<forall>entries es s.
                  run (onIntersection (e # entries) s0) es = Some s \<longrightarrow>
                  revealed (fade_ids c ! i) s \<longrightarrow>
                  revealed (fade_ids c ! i) s0 \<or> clock s0 + i * 200 \<le> clock s)))"
proof (intro conjI allI impI)
  assume "closest containers (target e) (document s0) = None"
  note im = onEntry_immediate [OF assms this]
  show "onEntry e s0 = update_page (target e) (classList_add ''in-view'') s0" by (rule im(1))
  show "revealed (target e) (onEntry e s0)" if "find_in (target e) (page s0) = Some x" for x
    using that by (rule im(2))
next
  fix c
  assume c: "closest containers (target e) (document s0) = Some c"
  show "page (onEntry e s0) = page s0" by (rule onEntry_grouped(1) [OF assms c])
  show "map (\<lambda>tm. (due tm, action tm)) (timers (onEntry e s0)) =
      map (\<lambda>tm. (due tm, action tm)) (timers s0) @
      map (\<lambda>(k, sib). (clock s0 + k * 200, AddInView (eid sib)))
        (enumerate 0 (querySelectorAll fade_in c))"
    by (rule onEntry_grouped(2) [OF assms c])
next
  fix c i b entries es s
  let ?j = "fade_ids c ! i"
  assume c: "closest containers (target e) (document s0) = Some c"
    and i: "i < length (fade_ids c)"
    and h: "hygienic b s0"
    and d: "distinct (map eid (elements_of (document s0)))"
    and hb: "held_back ?j i (document s0)"
    and p: "\<forall>tm\<in>set (timers s0). action tm \<noteq> AddInView ?j"
    and r: "run (onIntersection (e # entries) s0) es = Some s"
    and v: "revealed ?j s"
  note tf = trigger_facts [OF c i h d hb]
  have 0: "stagger_inv (clock s0) i ?j (revealed ?j s0) s0"
    using p by (auto simp: stagger_inv_def)
  have 1: "stagger_inv (clock s0) i ?j (revealed ?j s0) (onIntersection (e # entries) s0)"
    using h tf 0 by (rule stagger_onIntersection)
  note k = keeps_Intersection [OF h, of "e # entries"]
  have "stagger_inv (clock s0) i ?j (revealed ?j s0) s"
    using r conjunct1 [OF k] tf(1) _ _ 1
  proof (rule stagger_run)
    show "held_back ?j i (skeletons b (page (onIntersection (e # entries) s0)))"
      using tf(2) k by simp
    show "closest containers ?j (skeletons b (page (onIntersection (e # entries) s0))) \<noteq> None"
      using tf(3) k by simp
  qed
  then show "revealed ?j s0 \<or> clock s0 + i * 200 \<le> clock s"
    using v by (simp add: stagger_inv_def)
qed

section \<open>The samples\<close>

lemma sample_document_fields:
  "page (sample_document content) =
     [Element 101 ''html'' [] []
        [Element 102 ''head'' [] [] [], Element 103 ''body'' [] [] content]]"
  "document (sample_document content) = page (sample_document content)"
  "timers (sample_document content) = []" "clock (sample_document content) = 0"
  "next_timer (sample_document content) = 1" "bgContainer (sample_document content) = None"
  by (simp_all add: sample_document_def loaded_def html_document_def document_def)

lemma paths_sample:
  "path_in i [Element 101 ''html'' [] []
        [Element 102 ''head'' [] [] [], Element 103 ''body'' [] [] content]] =
   (if i = 101 then [Element 101 ''html'' [] []
        [Element 102 ''head'' [] [] [], Element 103 ''body'' [] [] content]]
    else if i = 102 then [Element 101 ''html'' [] []
        [Element 102 ''head'' [] [] [], Element 103 ''body'' [] [] content],
        Element 102 ''head'' [] [] []]
    else if i = 103 then [Element 101 ''html'' [] []
        [Element 102 ''head'' [] [] [], Element 103 ''body'' [] [] content],
        Element 103 ''body'' [] [] content]
    else (case path_in i content of [] \<Rightarrow> []
          | p # ps \<Rightarrow> Element 101 ''html'' [] []
              [Element 102 ''head'' [] [] [], Element 103 ''body'' [] [] content] #
              Element 103 ''body'' [] [] content # p # ps))"
  by (simp split: list.splits)


lemma grid_queries:
  "querySelectorAll fade_in sample_grid =
     [Element 6 ''div'' [''fade-in-element''] [] [], Element 7 ''div'' [''fade-in-element''] [] []]"
  "fade_ids sample_grid = [6, 7]"
  "closest containers 6 (document sample_grid_state) = Some sample_grid"
  "closest containers 7 (document sample_grid_state) = Some sample_grid"
  "closest containers 7 (document retriggered_grid_state) = Some sample_grid"
  by (simp_all add: fade_ids_def querySelectorAll_def fade_in_def matches_def contains_def
      sample_grid_def sample_grid_state_def retriggered_grid_state_def sample_document_fields
      document_def closest_def containers_def)

lemma enumerate_two: "enumerate 0 [x, y] = [(0, x), (1, y)]"
  by simp

lemma grid_entry:
  assumes "closest containers t (document s) = Some sample_grid"
  shows "onEntry \<lparr>isIntersecting = True, target = t\<rparr> s =
     s\<lparr>timers := timers s @
          [\<lparr>timer_id = next_timer s, due = clock s, action = AddInView 6\<rparr>,
           \<lparr>timer_id = next_timer s + 1, due = clock s + 200, action = AddInView 7\<rparr>],
       next_timer := next_timer s + 2\<rparr>"
proof -
  have "closest [ByClass ''hero-cta'', ByClass ''grid''] t (document s) = Some sample_grid"
    using assms by (simp add: containers_def)
  moreover have "querySelectorAll [ByClass ''fade-in-element''] sample_grid =
     [Element 6 ''div'' [''fade-in-element''] [] [], Element 7 ''div'' [''fade-in-element''] [] []]"
    using grid_queries(1) by (simp add: fade_in_def)
  ultimately show ?thesis
    by (simp add: onEntry_def enumerate_two setTimeout_def)
qed

lemma document_timers:
  "document (s\<lparr>timers := tms, next_timer := n\<rparr>) = document s"
  "document (s\<lparr>timers := tms, next_timer := n, clock := t\<rparr>) = document s"
  by (simp_all add: document_def split: option.splits)

lemma below_clean:
  shows "list_all (\<lambda>x. eid x < b) (e # descendants e) \<Longrightarrow> clean b e"
    and "list_all (\<lambda>x. eid x < b) (elements_of es) \<Longrightarrow> all_clean b es"
proof (induction e and es rule: descendants_elements_of.induct)
  case (1 i t cl st ch)
  then show ?case by simp
next
  case 2
  show ?case by simp
next
  case (3 c cs)
  then show ?case by simp
qed

lemma fold_max_least: "k \<le> fold max xs (k::nat)"
proof (induction xs arbitrary: k)
  case Nil
  show ?case by simp
next
  case (Cons x xs)
  have "k \<le> max x k" by simp
  also have "\<dots> \<le> fold max xs (max x k)" by (rule Cons)
  finally show ?case by simp
qed

lemma sample_hygienic:
  assumes "list_all (\<lambda>e. eid e < 104) (elements_of content)"
  shows "hygienic 104 (sample_document content)"
proof -
  have c: "all_clean 104 content" using assms by (rule below_clean(2))
  have "104 \<le> next_eid (sample_document content)"
    using fold_max_least [of 103 "map eid (elements_of content)"]
    by (simp add: sample_document_def loaded_def html_document_def)
  then show ?thesis
    using c by (simp add: hygienic_def overlay_scripted_def ripples_from_def sample_document_fields)
qed

lemma grid_hygienic:
  "hygienic 104 sample_grid_state"
  "distinct (map eid (elements_of (document sample_grid_state)))"
  "held_back 7 1 (document sample_grid_state)"
  "\<not> revealed 7 sample_grid_state"
proof -
  show "hygienic 104 sample_grid_state"
    unfolding sample_grid_state_def by (rule sample_hygienic) (simp add: sample_grid_def)
  show "distinct (map eid (elements_of (document sample_grid_state)))"
    by (simp add: sample_grid_state_def sample_document_fields sample_grid_def)
  show "held_back 7 1 (document sample_grid_state)"
    by (simp add: held_back_def sample_grid_state_def sample_document_fields sample_grid_def
        matches_def containers_def contains_def fade_ids_def querySelectorAll_def fade_in_def)
  show "\<not> revealed 7 sample_grid_state"
    by (simp add: revealed_def marked_def sample_grid_state_def sample_document_fields
        sample_grid_def contains_def)
qed

text \<open>
  On the grid page both fade-in elements intersect in one callback; the second one is
  revealed by its timer at 250ms, not before 200ms. On the card page the card is revealed
  by the callback itself.
\<close>

theorem staggered_reveal_witness:
  "closest containers 6 (document sample_grid_state) = Some sample_grid \<and>
   fade_ids sample_grid = [6, 7] \<and>
   (\<exists>s. run (onIntersection [\<lparr>isIntersecting = True, target = 6\<rparr>,
                              \<lparr>isIntersecting = True, target = 7\<rparr>] sample_grid_state)
            [Elapse 250, Timeout 2] = Some s \<and>
        revealed 7 s \<and> \<not> revealed 7 sample_grid_state \<and>
        clock sample_grid_state + 1 * 200 \<le> clock s) \<and>
   closest containers 5 (document sample_card_state) = None \<and>
   revealed 5 (onEntry \<lparr>isIntersecting = True, target = 5\<rparr> sample_card_state)"
proof -
  let ?e = "\<lparr>isIntersecting = True, target = 6\<rparr>"
  let ?e7 = "\<lparr>isIntersecting = True, target = 7\<rparr>"
  let ?s0 = "sample_grid_state"
  have f: "timers ?s0 = []" "clock ?s0 = 0" "next_timer ?s0 = 1" "bgContainer ?s0 = None"
    "page ?s0 = [Element 101 ''html'' [] []
        [Element 102 ''head'' [] [] [], Element 103 ''body'' [] [] [sample_grid]]]"
    by (simp_all add: sample_grid_state_def sample_document_fields)
  have 1: "onEntry ?e ?s0 =
      ?s0\<lparr>timers := [\<lparr>timer_id = 1, due = 0, action = AddInView 6\<rparr>,
                     \<lparr>timer_id = 2, due = 200, action = AddInView 7\<rparr>],
          next_timer := 3\<rparr>"
    using grid_entry [OF grid_queries(3)] by (simp add: f)
  have d1: "document (onEntry ?e ?s0) = document ?s0"
    unfolding 1 by (rule document_timers(1))
  have 2: "onIntersection [?e, ?e7] ?s0 =
      ?s0\<lparr>timers := [\<lparr>timer_id = 1, due = 0, action = AddInView 6\<rparr>,
                     \<lparr>timer_id = 2, due = 200, action = AddInView 7\<rparr>,
                     \<lparr>timer_id = 3, due = 0, action = AddInView 6\<rparr>,
                     \<lparr>timer_id = 4, due = 200, action = AddInView 7\<rparr>],
          next_timer := 5\<rparr>"
  proof -
    have "closest containers 7 (document (onEntry ?e ?s0)) = Some sample_grid"
      unfolding d1 by (rule grid_queries(4))
    from grid_entry [OF this] show ?thesis
      unfolding onIntersection_def by (simp add: 1 f)
  qed
  define s where "s = ?s0
              \<lparr>timers := [\<lparr>timer_id = 1, due = 0, action = AddInView 6\<rparr>,
                          \<lparr>timer_id = 3, due = 0, action = AddInView 6\<rparr>,
                          \<lparr>timer_id = 4, due = 200, action = AddInView 7\<rparr>],
               next_timer := 5, clock := 250,
               page := [Element 101 ''html'' [] []
                 [Element 102 ''head'' [] [] [],
                  Element 103 ''body'' [] []
                    [Element 5 ''div'' [''grid''] []
                      [Element 6 ''div'' [''fade-in-element''] [] [],
                       Element 7 ''div'' [''fade-in-element'', ''in-view''] [] []]]]]\<rparr>"
  have s: "run (onIntersection [?e, ?e7] ?s0) [Elapse 250, Timeout 2] = Some s"
    "revealed 7 s" "clock s = 250"
  proof -
    show "run (onIntersection [?e, ?e7] ?s0) [Elapse 250, Timeout 2] = Some s"
      unfolding 2 s_def by (simp add: f update_page_def classList_add_def sample_grid_def)
    show "revealed 7 s" by (simp add: s_def revealed_def marked_def contains_def)
    show "clock s = 250" by (simp add: s_def)
  qed
  have ie: "isIntersecting ?e" by simp
  have c: "closest containers (target ?e) (document ?s0) = Some sample_grid"
    using grid_queries(3) by simp
  have i: "1 < length (fade_ids sample_grid)" by (simp add: grid_queries(2))
  have j: "fade_ids sample_grid ! 1 = 7" by (simp add: grid_queries(2))
  have hb: "held_back (fade_ids sample_grid ! 1) 1 (document ?s0)"
    unfolding j by (rule grid_hygienic(3))
  have p: "\<forall>tm\<in>set (timers ?s0). action tm \<noteq> AddInView (fade_ids sample_grid ! 1)"
    by (simp add: f)
  have v: "revealed (fade_ids sample_grid ! 1) s" unfolding j by (rule s(2))
  have th: "revealed (fade_ids sample_grid ! 1) ?s0 \<or> clock ?s0 + 1 * 200 \<le> clock s"
    using staggered_reveal [OF ie, of ?s0] c i grid_hygienic(1,2) hb p s(1) v by blast
  have a: "clock ?s0 + 1 * 200 \<le> clock s"
    using th grid_hygienic(4) unfolding j by simp
  let ?e' = "\<lparr>isIntersecting = True, target = 5\<rparr>"
  have ie': "isIntersecting ?e'" by simp
  have c': "closest containers (target ?e') (document sample_card_state) = None"
    by (simp add: sample_card_state_def sample_document_fields closest_def matches_def
        containers_def contains_def)
  have f': "find_in (target ?e') (page sample_card_state) =
      Some (Element 5 ''div'' [''portal-card''] [] [])"
    by (simp add: sample_card_state_def sample_document_fields)
  have "revealed (target ?e') (onEntry ?e' sample_card_state)"
    using staggered_reveal [OF ie', of sample_card_state] c' f' by blast
  then have b: "revealed 5 (onEntry ?e' sample_card_state)" by simp
  have c'': "closest containers 5 (document sample_card_state) = None" using c' by simp
  show ?thesis
    using grid_queries(3,2) s(1,2) grid_hygienic(4) a c'' b by blast
qed

text \<open>
  C5 as stated fails in three ways. A trigger arrives while the reveals of an earlier
  trigger are pending: a first trigger at time 0, a second at 100ms on the same grid; the
  second sibling is revealed at 200ms by the timer of the first trigger, 100ms after the
  second trigger. A container holds another one: in a hero-cta container with a fade-in
  element and a grid with a fade-in element of its own, both fade-in elements intersect
  in one callback; the element of the grid, at index 1 of the hero-cta group, is revealed
  by the timer of its own entry with no delay. An intersecting element that is inside no
  recognized container is one itself: a hero-cta element directly in the body, observed
  and holding no fade-in element, is left as it was by the callback, with nothing
  scheduled.
\<close>

theorem staggered_reveal_counterexample:
  "run sample_grid_state [Intersection [\<lparr>isIntersecting = True, target = 6\<rparr>], Elapse 100] =
     Some retriggered_grid_state \<and>
   closest containers 7 (document retriggered_grid_state) = Some sample_grid \<and>
   fade_ids sample_grid ! 1 = 7 \<and>
   \<not> revealed 7 retriggered_grid_state \<and>
   (\<exists>s. run retriggered_grid_state
            [Intersection [\<lparr>isIntersecting = True, target = 7\<rparr>], Elapse 100, Timeout 2] = Some s \<and>
        revealed 7 s \<and> clock s = 200 \<and>
        \<not> clock retriggered_grid_state + 1 * 200 \<le> clock s) \<and>
   closest containers 2 (document sample_nested_state) = Some sample_nested \<and>
   fade_ids sample_nested ! 1 = 4 \<and>
   timers sample_nested_state = [] \<and>
   \<not> revealed 4 sample_nested_state \<and>
   (\<exists>s. run sample_nested_state
            [Intersection [\<lparr>isIntersecting = True, target = 2\<rparr>,
                           \<lparr>isIntersecting = True, target = 4\<rparr>], Timeout 3] = Some s \<and>
        revealed 4 s \<and> clock s = 0 \<and>
        \<not> clock sample_nested_state + 1 * 200 \<le> clock s) \<and>
   5 \<in> set (observed (setupScrollAnimations sample_hero_state)) \<and>
   filter (matches containers) (butlast (path_in 5 (document sample_hero_state))) = [] \<and>
   run sample_hero_state [Intersection [\<lparr>isIntersecting = True, target = 5\<rparr>]] =
     Some sample_hero_state \<and>
   \<not> revealed 5 sample_hero_state \<and> timers sample_hero_state = []"
proof -
  let ?e6 = "\<lparr>isIntersecting = True, target = 6\<rparr>"
  let ?e7 = "\<lparr>isIntersecting = True, target = 7\<rparr>"
  have f: "timers sample_grid_state = []" "clock sample_grid_state = 0"
    "next_timer sample_grid_state = 1" "bgContainer sample_grid_state = None"
    "page sample_grid_state = [Element 101 ''html'' [] []
        [Element 102 ''head'' [] [] [], Element 103 ''body'' [] [] [sample_grid]]]"
    by (simp_all add: sample_grid_state_def sample_document_fields)
  have r1: "run sample_grid_state [Intersection [?e6], Elapse 100] = Some retriggered_grid_state"
    using grid_entry [OF grid_queries(3)]
    by (simp add: onIntersection_def f retriggered_grid_state_def)
  have t1: "timers retriggered_grid_state =
      [\<lparr>timer_id = 1, due = 0, action = AddInView 6\<rparr>,
       \<lparr>timer_id = 2, due = 200, action = AddInView 7\<rparr>]"
    "clock retriggered_grid_state = 100" "next_timer retriggered_grid_state = 3"
    "page retriggered_grid_state = [Element 101 ''html'' [] []
        [Element 102 ''head'' [] [] [], Element 103 ''body'' [] [] [sample_grid]]]"
    by (simp_all add: retriggered_grid_state_def f)
  have nr: "\<not> revealed 7 retriggered_grid_state"
    by (simp add: revealed_def marked_def t1 sample_grid_def contains_def)
  define s where "s = retriggered_grid_state
        \<lparr>timers := [\<lparr>timer_id = 1, due = 0, action = AddInView 6\<rparr>,
                    \<lparr>timer_id = 3, due = 100, action = AddInView 6\<rparr>,
                    \<lparr>timer_id = 4, due = 300, action = AddInView 7\<rparr>],
         next_timer := 5, clock := 200,
         page := [Element 101 ''html'' [] []
                 [Element 102 ''head'' [] [] [],
                  Element 103 ''body'' [] []
                    [Element 5 ''div'' [''grid''] []
                      [Element 6 ''div'' [''fade-in-element''] [] [],
                       Element 7 ''div'' [''fade-in-element'', ''in-view''] [] []]]]]\<rparr>"
  have r2: "run retriggered_grid_state [Intersection [?e7], Elapse 100, Timeout 2] = Some s"
    using grid_entry [OF grid_queries(5)]
    by (simp add: onIntersection_def t1 s_def update_page_def classList_add_def sample_grid_def)
  have s: "revealed 7 s" "clock s = 200" "\<not> clock retriggered_grid_state + 1 * 200 \<le> clock s"
    by (simp_all add: s_def revealed_def marked_def contains_def t1)
  have grid: "\<exists>s. run retriggered_grid_state [Intersection [?e7], Elapse 100, Timeout 2] = Some s \<and>
        revealed 7 s \<and> clock s = 200 \<and>
        \<not> clock retriggered_grid_state + 1 * 200 \<le> clock s"
    using r2 s by blast
  let ?e2 = "\<lparr>isIntersecting = True, target = 2\<rparr>"
  let ?e4 = "\<lparr>isIntersecting = True, target = 4\<rparr>"
  have n: "timers sample_nested_state = []" "clock sample_nested_state = 0"
    "next_timer sample_nested_state = 1" "bgContainer sample_nested_state = None"
    "page sample_nested_state = [Element 101 ''html'' [] []
        [Element 102 ''head'' [] [] [], Element 103 ''body'' [] [] [sample_nested]]]"
    by (simp_all add: sample_nested_state_def sample_document_fields)
  have d: "document sample_nested_state = page sample_nested_state"
    by (simp add: sample_nested_state_def sample_document_fields)
  have c2: "closest containers 2 (document sample_nested_state) = Some sample_nested"
    by (simp add: d n sample_nested_def closest_def containers_def matches_def contains_def)
  have c4: "closest containers 4 (document sample_nested_state) =
      Some (Element 3 ''div'' [''grid''] [] [Element 4 ''div'' [''fade-in-element''] [] []])"
    by (simp add: d n sample_nested_def closest_def containers_def matches_def contains_def)
  have q2: "querySelectorAll [ByClass ''fade-in-element''] sample_nested =
      [Element 2 ''div'' [''fade-in-element''] [] [], Element 4 ''div'' [''fade-in-element''] [] []]"
    by (simp add: querySelectorAll_def sample_nested_def matches_def contains_def)
  have q4: "querySelectorAll [ByClass ''fade-in-element'']
      (Element 3 ''div'' [''grid''] [] [Element 4 ''div'' [''fade-in-element''] [] []]) =
      [Element 4 ''div'' [''fade-in-element''] [] []]"
    by (simp add: querySelectorAll_def matches_def contains_def)
  have i4: "fade_ids sample_nested ! 1 = 4"
    using q2 by (simp add: fade_ids_def fade_in_def)
  have o2: "onEntry ?e2 sample_nested_state =
      sample_nested_state
        \<lparr>timers := [\<lparr>timer_id = 1, due = 0, action = AddInView 2\<rparr>,
                    \<lparr>timer_id = 2, due = 200, action = AddInView 4\<rparr>],
         next_timer := 3\<rparr>"
    using c2 by (simp add: onEntry_def containers_def q2 enumerate_two setTimeout_def n)
  have d2: "document (onEntry ?e2 sample_nested_state) = document sample_nested_state"
    unfolding o2 by (rule document_timers(1))
  have o4: "onIntersection [?e2, ?e4] sample_nested_state =
      sample_nested_state
        \<lparr>timers := [\<lparr>timer_id = 1, due = 0, action = AddInView 2\<rparr>,
                    \<lparr>timer_id = 2, due = 200, action = AddInView 4\<rparr>,
                    \<lparr>timer_id = 3, due = 0, action = AddInView 4\<rparr>],
         next_timer := 4\<rparr>"
  proof -
    have "closest [ByClass ''hero-cta'', ByClass ''grid''] 4
        (document (onEntry ?e2 sample_nested_state)) =
      Some (Element 3 ''div'' [''grid''] [] [Element 4 ''div'' [''fade-in-element''] [] []])"
      unfolding d2 using c4 by (simp add: containers_def)
    then have "onEntry ?e4 (onEntry ?e2 sample_nested_state) =
        (onEntry ?e2 sample_nested_state)
          \<lparr>timers := timers (onEntry ?e2 sample_nested_state) @
             [\<lparr>timer_id = next_timer (onEntry ?e2 sample_nested_state),
               due = clock (onEntry ?e2 sample_nested_state), action = AddInView 4\<rparr>],
           next_timer := next_timer (onEntry ?e2 sample_nested_state) + 1\<rparr>"
      by (simp add: onEntry_def [of ?e4] q4 setTimeout_def)
    then show ?thesis
      unfolding onIntersection_def by (simp add: o2 n)
  qed
  define s' where "s' = sample_nested_state
        \<lparr>timers := [\<lparr>timer_id = 1, due = 0, action = AddInView 2\<rparr>,
                    \<lparr>timer_id = 2, due = 200, action = AddInView 4\<rparr>],
         next_timer := 4,
         page := [Element 101 ''html'' [] []
                 [Element 102 ''head'' [] [] [],
                  Element 103 ''body'' [] []
                    [Element 1 ''div'' [''hero-cta''] []
                       [Element 2 ''div'' [''fade-in-element''] [] [],
                        Element 3 ''div'' [''grid''] []
                          [Element 4 ''div'' [''fade-in-element'', ''in-view''] [] []]]]]]\<rparr>"
  have r3: "run sample_nested_state [Intersection [?e2, ?e4], Timeout 3] = Some s'"
    by (simp add: o4 n s'_def update_page_def classList_add_def sample_nested_def)
  have s': "revealed 4 s'" "clock s' = 0" "\<not> clock sample_nested_state + 1 * 200 \<le> clock s'"
    by (simp_all add: s'_def revealed_def marked_def contains_def n)
  have nested: "\<exists>s. run sample_nested_state [Intersection [?e2, ?e4], Timeout 3] = Some s \<and>
        revealed 4 s \<and> clock s = 0 \<and> \<not> clock sample_nested_state + 1 * 200 \<le> clock s"
    using r3 s' by blast
  have n4: "\<not> revealed 4 sample_nested_state"
    by (simp add: revealed_def marked_def n sample_nested_def contains_def)
  let ?e5 = "\<lparr>isIntersecting = True, target = 5\<rparr>"
  have h: "timers sample_hero_state = []"
    "page sample_hero_state = [Element 101 ''html'' [] []
        [Element 102 ''head'' [] [] [],
         Element 103 ''body'' [] [] [Element 5 ''div'' [''hero-cta''] [] []]]]"
    "document sample_hero_state = page sample_hero_state"
    by (simp_all add: sample_hero_state_def sample_document_fields)
  have ob: "5 \<in> set (observed (setupScrollAnimations sample_hero_state))"
    by (simp add: setupScrollAnimations_def document_querySelectorAll_def h matches_def
        contains_def)
  have an: "filter (matches containers) (butlast (path_in 5 (document sample_hero_state))) = []"
    by (simp add: h containers_def matches_def contains_def)
  have c5: "closest [ByClass ''hero-cta'', ByClass ''grid''] 5 (document sample_hero_state) =
      Some (Element 5 ''div'' [''hero-cta''] [] [])"
    by (simp add: h closest_def matches_def contains_def)
  have r5: "run sample_hero_state [Intersection [?e5]] = Some sample_hero_state"
    by (simp add: onIntersection_def onEntry_def c5 querySelectorAll_def)
  have n5: "\<not> revealed 5 sample_hero_state"
    by (simp add: revealed_def marked_def h contains_def)
  show ?thesis
    using r1 grid_queries(5) grid_queries(2) nr grid c2 i4 n(1) n4 nested ob an r5 n5 h(1)
    by simp
qed

end
